theory Spec2Isabelle
  imports Main "HOL-Library.Multiset"
begin

section \<open>The API resolver of backend-common (context/ApiResolver.ts)\<close>

subsection \<open>Data model (context/types.ts)\<close>

text \<open>
  A JavaScript value as the resolver sees it: either \<open>undefined\<close> or some other value.
  \<open>Map.get\<close> answers \<open>undefined\<close> both for a missing key and for a key that holds
  \<open>undefined\<close>; \<open>Map.has\<close> tells the two apart.
\<close>

datatype 'v jsval = Undefined | Val 'v

text \<open>
  \<open>ApiRef<T>\<close>: the identifier and the compile-time marker field \<open>T\<close>.
\<close>

record 't ApiRef =
  id' :: string
  T :: 't

type_synonym AnyApiRef = "unit ApiRef"

text \<open>
  \<open>ApiFactory\<close>: the produced reference, the dependency object (its entries in the
  order in which \<open>Object.values\<close> enumerates them) and the construction function, which
  receives an object with the same keys holding the resolved values.
\<close>

record 'v ApiFactory =
  api :: AnyApiRef
  deps :: "(string \<times> AnyApiRef) list"
  factory :: "(string \<times> 'v jsval) list \<Rightarrow> 'v jsval"

text \<open>
  Factories are objects and \<open>queue.includes(factory)\<close> compares them by identity, so a
  batch is a list of object addresses and the objects live in a heap.
\<close>

type_synonym 'v heap = "nat \<Rightarrow> 'v ApiFactory"

definition api_id :: "'v heap \<Rightarrow> nat \<Rightarrow> string" where
  "api_id H f = id' (api (H f))"

definition dep_refs :: "'v heap \<Rightarrow> nat \<Rightarrow> AnyApiRef list" where
  "dep_refs H f = map snd (deps (H f))"

definition dep_ids :: "'v heap \<Rightarrow> nat \<Rightarrow> string list" where
  "dep_ids H f = map id' (dep_refs H f)"

text \<open>The contents of a \<open>Map<string, unknown>\<close> and its two read operations.\<close>

type_synonym 'v registry = "string \<rightharpoonup> 'v jsval"

definition Map_has :: "'v registry \<Rightarrow> string \<Rightarrow> bool" where
  "Map_has m k = (m k \<noteq> None)"

definition Map_get :: "'v registry \<Rightarrow> string \<Rightarrow> 'v jsval" where
  "Map_get m k = (case m k of None \<Rightarrow> Undefined | Some v \<Rightarrow> v)"

text \<open>
  The three errors \<open>with\<close> throws. The chain is \<open>seen\<close> followed by the offending
  identifier; \<open>message\<close> renders the text of the thrown \<open>Error\<close>, which joins
  \<open>seen\<close> and appends the arrow and the offending identifier.
\<close>

datatype error =
    DuplicateRegistration string
  | MissingDependency "string list"
  | CircularDependency "string list"

fun join :: "string \<Rightarrow> string list \<Rightarrow> string" where
  "join sep [] = []"
| "join sep [x] = x"
| "join sep (x # y # ys) = x @ sep @ join sep (y # ys)"

fun message :: "error \<Rightarrow> string" where
  "message (DuplicateRegistration k) = ''API '' @ k @ '' was already registered''"
| "message (MissingDependency chain) =
     ''Could not resolve API dependency in chain, '' @ join '' -> '' (butlast chain) @
     '' -> '' @ last chain"
| "message (CircularDependency chain) =
     ''Circular API dependencies: '' @ join '' -> '' (butlast chain) @ '' -> '' @ last chain"

subsection \<open>Placement: the depth-first traversal of \<open>with\<close>\<close>

text \<open>\<open>factories.find(f => f.api.id === depRef.id)\<close>: the first match in batch order.\<close>

definition find_factory :: "'v heap \<Rightarrow> nat list \<Rightarrow> string \<Rightarrow> nat option" where
  "find_factory H factories k = find (\<lambda>f. api_id H f = k) factories"

text \<open>
  \<open>enqueueDepthFirst(factory, seen)\<close> with the closure variables made parameters: the
  heap, the contents of the local \<open>apis\<close> map (not written during placement), the batch,
  and the queue, which is returned updated. \<open>enqueueDeps\<close> is the \<open>for\<close> loop over
  \<open>Object.values(factory.deps)\<close>.
\<close>

function
  enqueueDepthFirst ::
    "'v heap \<Rightarrow> 'v registry \<Rightarrow> nat list \<Rightarrow> nat \<Rightarrow> string list \<Rightarrow> nat list \<Rightarrow> error + nat list"
and
  enqueueDeps ::
    "'v heap \<Rightarrow> 'v registry \<Rightarrow> nat list \<Rightarrow> AnyApiRef list \<Rightarrow> string list \<Rightarrow> nat list
      \<Rightarrow> error + nat list"
where
  "enqueueDepthFirst H apis factories f seen queue =
     (case enqueueDeps H apis factories (dep_refs H f) seen queue of
        Inl e \<Rightarrow> Inl e
      | Inr queue' \<Rightarrow> Inr (if f \<in> set queue' then queue' else queue' @ [f]))"
| "enqueueDeps H apis factories [] seen queue = Inr queue"
| "enqueueDeps H apis factories (depRef # rest) seen queue =
     (if id' depRef \<in> set seen then Inl (CircularDependency (seen @ [id' depRef]))
      else if Map_has apis (id' depRef) then enqueueDeps H apis factories rest seen queue
      else
        (case find_factory H factories (id' depRef) of
           None \<Rightarrow> Inl (MissingDependency (seen @ [id' depRef]))
         | Some depFactory \<Rightarrow>
             (case enqueueDepthFirst H apis factories depFactory (seen @ [id' depRef]) queue of
                Inl e \<Rightarrow> Inl e
              | Inr queue' \<Rightarrow> enqueueDeps H apis factories rest seen queue')))"
  by pat_completeness auto

text \<open>
  Each recursive call extends \<open>seen\<close> by an identifier of the batch that was not on it,
  so the number of batch identifiers off the path decreases; the loop over the
  dependencies shortens the list.
\<close>

termination
proof (relation "measures
   [\<lambda>x. case x of
        Inl (H, apis, fs, f, seen, q) \<Rightarrow> card (api_id H ` set fs - set seen)
      | Inr (H, apis, fs, ds, seen, q) \<Rightarrow> card (api_id H ` set fs - set seen),
    \<lambda>x. case x of Inl _ \<Rightarrow> 1 | Inr _ \<Rightarrow> (0::nat),
    \<lambda>x. case x of Inl _ \<Rightarrow> 0 | Inr (H, apis, fs, ds, seen, q) \<Rightarrow> length ds]", goal_cases)
  case 1 show ?case by simp
next
  case 2 show ?case by simp
next
  case 3 show ?case by simp
next
  case (4 H apis fs depRef rest seen q g)
  from 4(3) have "g \<in> set fs" "id' depRef = api_id H g"
    by (auto simp: find_factory_def find_Some_iff)
  then have "id' depRef \<in> api_id H ` set fs"
    by (simp only: image_eqI)
  then have mem: "id' depRef \<in> api_id H ` set fs - set seen"
    using 4(1) by auto
  have "api_id H ` set fs - set (seen @ [id' depRef])
          \<subset> api_id H ` set fs - set seen"
    using mem by auto
  then have "card (api_id H ` set fs - set (seen @ [id' depRef]))
          < card (api_id H ` set fs - set seen)"
    by (intro psubset_card_mono) auto
  then show ?case by simp
next
  case 5 show ?case by simp
qed

text \<open>
  The same traversal with a budget for the depth of the recursion: every call of
  \<open>enqueueDepthFirst\<close> takes one unit from the budget of the calls it nests, and
  \<open>None\<close> is a traversal that needed a deeper recursion than the budget allows.
\<close>

fun
  enqueueDepthFirst_depth ::
    "nat \<Rightarrow> 'v heap \<Rightarrow> 'v registry \<Rightarrow> nat list \<Rightarrow> nat \<Rightarrow> string list \<Rightarrow> nat list
      \<Rightarrow> (error + nat list) option"
and
  enqueueDeps_depth ::
    "nat \<Rightarrow> 'v heap \<Rightarrow> 'v registry \<Rightarrow> nat list \<Rightarrow> AnyApiRef list \<Rightarrow> string list \<Rightarrow> nat list
      \<Rightarrow> (error + nat list) option"
where
  "enqueueDepthFirst_depth 0 H apis factories f seen queue = None"
| "enqueueDepthFirst_depth (Suc n) H apis factories f seen queue =
     (case enqueueDeps_depth n H apis factories (dep_refs H f) seen queue of
        None \<Rightarrow> None
      | Some (Inl e) \<Rightarrow> Some (Inl e)
      | Some (Inr queue') \<Rightarrow> Some (Inr (if f \<in> set queue' then queue' else queue' @ [f])))"
| "enqueueDeps_depth n H apis factories [] seen queue = Some (Inr queue)"
| "enqueueDeps_depth n H apis factories (depRef # rest) seen queue =
     (if id' depRef \<in> set seen then Some (Inl (CircularDependency (seen @ [id' depRef])))
      else if Map_has apis (id' depRef) then enqueueDeps_depth n H apis factories rest seen queue
      else
        (case find_factory H factories (id' depRef) of
           None \<Rightarrow> Some (Inl (MissingDependency (seen @ [id' depRef])))
         | Some depFactory \<Rightarrow>
             (case enqueueDepthFirst_depth n H apis factories depFactory (seen @ [id' depRef]) queue of
                None \<Rightarrow> None
              | Some (Inl e) \<Rightarrow> Some (Inl e)
              | Some (Inr queue') \<Rightarrow> enqueueDeps_depth n H apis factories rest seen queue')))"

text \<open>
  The first \<open>for\<close> loop of \<open>with\<close>: the duplicate check against \<open>apis\<close> and the
  placement of each factory of the batch, in batch order.
\<close>

fun placeAll ::
  "'v heap \<Rightarrow> 'v registry \<Rightarrow> nat list \<Rightarrow> nat list \<Rightarrow> nat list \<Rightarrow> error + nat list"
where
  "placeAll H apis factories [] queue = Inr queue"
| "placeAll H apis factories (f # rest) queue =
     (if Map_has apis (api_id H f) then Inl (DuplicateRegistration (api_id H f))
      else
        (case enqueueDepthFirst H apis factories f [api_id H f] queue of
           Inl e \<Rightarrow> Inl e
         | Inr queue' \<Rightarrow> placeAll H apis factories rest queue'))"

subsection \<open>Map objects, instantiation and the resolver\<close>

text \<open>
  \<open>Map\<close> objects are mutable and addressed: the store holds the contents of every
  \<open>Map\<close> and the next unused address. \<open>new Map(m)\<close> allocates a copy, \<open>set\<close> writes
  into one object.
\<close>

record 'v store =
  maps :: "nat \<Rightarrow> 'v registry"
  fresh :: nat

definition new_Map :: "'v registry \<Rightarrow> 'v store \<Rightarrow> nat \<times> 'v store" where
  "new_Map m s = (fresh s, s\<lparr>maps := (maps s)(fresh s := m), fresh := Suc (fresh s)\<rparr>)"

definition Map_set :: "nat \<Rightarrow> string \<Rightarrow> 'v jsval \<Rightarrow> 'v store \<Rightarrow> 'v store" where
  "Map_set a k v s = s\<lparr>maps := (maps s)(a := (maps s a)(k \<mapsto> v))\<rparr>"

text \<open>lodash \<open>mapValues\<close> on an object given by its entries.\<close>

definition mapValues :: "('a \<Rightarrow> 'b) \<Rightarrow> (string \<times> 'a) list \<Rightarrow> (string \<times> 'b) list" where
  "mapValues g obj = map (\<lambda>(name, x). (name, g x)) obj"

text \<open>
  The second \<open>for\<close> loop of \<open>with\<close>, writing into the \<open>Map\<close> at address \<open>a\<close>. The
  construction functions are taken to be pure and total, as the types declare them.
\<close>

fun instantiate :: "'v heap \<Rightarrow> nat \<Rightarrow> nat list \<Rightarrow> 'v store \<Rightarrow> 'v store" where
  "instantiate H a [] s = s"
| "instantiate H a (f # queue) s =
     (let dependencies = mapValues (\<lambda>ref. Map_get (maps s a) (id' ref)) (deps (H f))
      in instantiate H a queue (Map_set a (api_id H f) (factory (H f) dependencies) s))"

text \<open>An \<open>ApiResolver\<close> holds (read-only) the address of its \<open>Map\<close>.\<close>

datatype ApiResolver = ApiResolver (apis: nat)

definition empty' :: "'v store \<Rightarrow> ApiResolver \<times> 'v store" where
  "empty' s = (let (a, s') = new_Map Map.empty s in (ApiResolver a, s'))"

definition with' ::
  "'v heap \<Rightarrow> ApiResolver \<Rightarrow> nat list \<Rightarrow> 'v store \<Rightarrow> (error + ApiResolver) \<times> 'v store"
where
  "with' H this factories s =
     (let (a, s1) = new_Map (maps s (apis this)) s in
      case placeAll H (maps s1 a) factories factories [] of
        Inl e \<Rightarrow> (Inl e, s1)
      | Inr queue \<Rightarrow> (Inr (ApiResolver a), instantiate H a queue s1))"

text \<open>The static \<open>ApiResolver.with(factories)\<close>.\<close>

definition with_static ::
  "'v heap \<Rightarrow> nat list \<Rightarrow> 'v store \<Rightarrow> (error + ApiResolver) \<times> 'v store"
where
  "with_static H factories s = (let (r, s') = empty' s in with' H r factories s')"

definition resolve :: "'v store \<Rightarrow> ApiResolver \<Rightarrow> 't ApiRef \<Rightarrow> 'v jsval" where
  "resolve s this ref = Map_get (maps s (apis this)) (id' ref)"

text \<open>The registry a resolver holds in a store.\<close>

definition registry_of :: "'v store \<Rightarrow> ApiResolver \<Rightarrow> 'v registry" where
  "registry_of s r = maps s (apis r)"

subsection \<open>Specification notions\<close>

text \<open>
  The dependency graph a set of factories induces on identifiers: an edge from a
  dependency identifier to the identifier of the factory that declares it, where both
  are produced by factories of the set.
\<close>

definition dep_rel :: "'v heap \<Rightarrow> nat set \<Rightarrow> (string \<times> string) set" where
  "dep_rel H S = {(d, api_id H f) | d f. f \<in> S \<and> d \<in> set (dep_ids H f) \<and> d \<in> api_id H ` S}"

text \<open>
  A batch is fully satisfiable over a registry when every dependency identifier is
  a key of the registry or is produced by a factory of the batch.
\<close>

definition satisfiable :: "'v heap \<Rightarrow> 'v registry \<Rightarrow> nat list \<Rightarrow> bool" where
  "satisfiable H m fs \<longleftrightarrow>
     (\<forall>f\<in>set fs. \<forall>d\<in>set (dep_ids H f). Map_has m d \<or> d \<in> api_id H ` set fs)"

text \<open>
  No factory of the batch produces an identifier that is already a key of the registry.
\<close>

definition unregistered_batch :: "'v heap \<Rightarrow> 'v registry \<Rightarrow> nat list \<Rightarrow> bool" where
  "unregistered_batch H m fs \<longleftrightarrow> (\<forall>f\<in>set fs. \<not> Map_has m (api_id H f))"

text \<open>
  The canonical, dependency-respecting value of an identifier: the registered value
  if there is one, otherwise the construction function of the factory producing it
  applied to the canonical values of its dependencies. The fuel bounds the depth of the
  dependency chains followed; the length of the batch is enough for an acyclic batch.
\<close>

fun canonical :: "'v heap \<Rightarrow> 'v registry \<Rightarrow> nat list \<Rightarrow> nat \<Rightarrow> string \<Rightarrow> 'v jsval" where
  "canonical H base fs 0 k = Map_get base k"
| "canonical H base fs (Suc n) k =
     (case base k of
        Some v \<Rightarrow> v
      | None \<Rightarrow>
          (case find_factory H fs k of
             None \<Rightarrow> Undefined
           | Some f \<Rightarrow>
               factory (H f) (mapValues (\<lambda>ref. canonical H base fs n (id' ref)) (deps (H f)))))"

subsection \<open>Notions used in the proofs\<close>

text \<open>
  The factories of a batch whose identifier is not a key of the registry.
\<close>

definition unregistered :: "'v heap \<Rightarrow> 'v registry \<Rightarrow> nat list \<Rightarrow> nat set" where
  "unregistered H m fs = {g \<in> set fs. \<not> Map_has m (api_id H g)}"

text \<open>
  A queue is in dependency order over the key set \<open>D\<close>: every factory finds its
  dependencies among \<open>D\<close> and the identifiers placed before it, and produces an
  identifier that is not there yet.
\<close>

fun ordered :: "'v heap \<Rightarrow> string set \<Rightarrow> nat list \<Rightarrow> bool" where
  "ordered H D [] = True"
| "ordered H D (g # q) =
     (set (dep_ids H g) \<subseteq> D \<and> api_id H g \<notin> D \<and> ordered H (insert (api_id H g) D) q)"

text \<open>
  A part \<open>S\<close> of the batch that can be placed on its own: its identifiers are
  pairwise distinct and unregistered, every dependency is registered or resolved by
  \<open>find\<close> to a factory of \<open>S\<close>, and its dependency graph is acyclic.
\<close>

definition closed_part :: "'v heap \<Rightarrow> 'v registry \<Rightarrow> nat list \<Rightarrow> nat set \<Rightarrow> bool" where
  "closed_part H m fs S \<longleftrightarrow>
     S \<subseteq> set fs \<and> inj_on (api_id H) S \<and> (\<forall>g\<in>S. \<not> Map_has m (api_id H g)) \<and>
     (\<forall>g\<in>S. \<forall>d\<in>set (dep_ids H g). Map_has m d \<or> (\<exists>g'\<in>S. find_factory H fs d = Some g')) \<and>
     acyclic (dep_rel H S)"

text \<open>
  The invariant of \<open>seen\<close>: unregistered identifiers, those of the part each
  depending (transitively) on the factory being placed.
\<close>

definition on_path :: "'v heap \<Rightarrow> 'v registry \<Rightarrow> nat set \<Rightarrow> nat \<Rightarrow> string list \<Rightarrow> bool" where
  "on_path H m S f seen \<longleftrightarrow>
     (\<forall>s\<in>set seen. \<not> Map_has m s \<and>
        (s \<in> api_id H ` S \<longrightarrow> (api_id H f, s) \<in> (dep_rel H S)\<^sup>*))"

text \<open>
  A registry solves the equations of a set of factories over a base registry: it
  extends the base by exactly their identifiers, each holding the value its
  construction function gives on the registry's own values of the dependencies.
\<close>

definition solves :: "'v heap \<Rightarrow> 'v registry \<Rightarrow> nat set \<Rightarrow> 'v registry \<Rightarrow> bool" where
  "solves H base S m \<longleftrightarrow>
     dom m = dom base \<union> api_id H ` S \<and>
     (\<forall>k\<in>dom base. m k = base k) \<and>
     (\<forall>g\<in>S. m (api_id H g) =
        Some (factory (H g) (mapValues (\<lambda>ref. Map_get m (id' ref)) (deps (H g)))))"

text \<open>
  The identifiers of the set an identifier depends on, transitively, itself included.
\<close>

definition below :: "'v heap \<Rightarrow> nat set \<Rightarrow> string \<Rightarrow> string set" where
  "below H S k = {j \<in> api_id H ` S. (j, k) \<in> (dep_rel H S)\<^sup>*}"

text \<open>
  The store after \<open>new Map(this.apis)\<close>.
\<close>

definition copied :: "'v store \<Rightarrow> ApiResolver \<Rightarrow> 'v store" where
  "copied s r = snd (new_Map (maps s (apis r)) s)"

subsection \<open>The factories of the test suite (ApiResolver.test.ts)\<close>

text \<open>
  The values the tests compute with: numbers, with \<open>NaN\<close> for the sum JavaScript
  forms when an operand is \<open>undefined\<close>.
\<close>

datatype jsnum = Num int | NaN

fun plus_any :: "jsnum jsval \<Rightarrow> jsnum jsval \<Rightarrow> jsnum jsval" where
  "plus_any (Val (Num x)) (Val (Num y)) = Val (Num (x + y))"
| "plus_any _ _ = Val NaN"

text \<open>Reading a property of the dependencies object (\<open>({ ai }) => ...\<close>).\<close>

definition get_prop :: "(string \<times> 'v jsval) list \<Rightarrow> string \<Rightarrow> 'v jsval" where
  "get_prop obj name = (case map_of obj name of None \<Rightarrow> Undefined | Some v \<Rightarrow> v)"

definition ref :: "string \<Rightarrow> AnyApiRef" where
  "ref k = \<lparr>id' = k, T = ()\<rparr>"

text \<open>The tests' \<open>allPermutations\<close>.\<close>

function permute :: "'a list \<Rightarrow> 'a list \<Rightarrow> 'a list list" where
  "permute [] m = [m]"
| "permute (x # xs) m =
     concat (map (\<lambda>i. permute (take i (x # xs) @ drop (Suc i) (x # xs)) (m @ [(x # xs) ! i]))
       [0..<length (x # xs)])"
  by pat_completeness auto
termination
  by (relation "measure (\<lambda>(arr, m). length arr)") auto

definition allPermutations :: "'a list \<Rightarrow> 'a list list" where
  "allPermutations inputArr = permute inputArr []"

text \<open>
  The factory objects of the tests: those of the arrangement test, the second factory
  for \<open>a\<close> (\<open>apiA2\<close>), the dangling \<open>c\<close>, the two factories of the circular test,
  the \<open>b\<close> without dependencies, the \<open>b\<close> of the dangling test, and the \<open>a\<close> that
  depends on an already registered \<open>b\<close>; and one more, \<open>circularA'\<close>, an \<open>a\<close> that
  names a missing dependency before \<open>b\<close>.
\<close>

definition apiA :: "jsnum ApiFactory" where
  "apiA = \<lparr>api = ref ''a'', deps = [], factory = (\<lambda>_. Val (Num 1))\<rparr>"

definition apiB :: "jsnum ApiFactory" where
  "apiB = \<lparr>api = ref ''b'', deps = [(''ai'', ref ''a'')],
     factory = (\<lambda>d. plus_any (get_prop d ''ai'') (Val (Num 1)))\<rparr>"

definition apiC :: "jsnum ApiFactory" where
  "apiC = \<lparr>api = ref ''c'', deps = [(''bi'', ref ''b'')],
     factory = (\<lambda>d. plus_any (get_prop d ''bi'') (Val (Num 1)))\<rparr>"

definition apiD :: "jsnum ApiFactory" where
  "apiD = \<lparr>api = ref ''d'', deps = [(''bi'', ref ''b'')],
     factory = (\<lambda>d. plus_any (get_prop d ''bi'') (Val (Num 1)))\<rparr>"

definition apiE :: "jsnum ApiFactory" where
  "apiE = \<lparr>api = ref ''e'', deps = [(''ci'', ref ''c''), (''di'', ref ''d'')],
     factory = (\<lambda>d. plus_any (get_prop d ''ci'') (get_prop d ''di''))\<rparr>"

definition apiA2 :: "jsnum ApiFactory" where
  "apiA2 = \<lparr>api = ref ''a'', deps = [], factory = (\<lambda>_. Val (Num 2))\<rparr>"

definition danglingC :: "jsnum ApiFactory" where
  "danglingC = \<lparr>api = ref ''c'', deps = [(''missing'', ref ''missing'')],
     factory = (\<lambda>_. Undefined)\<rparr>"

definition circularA :: "jsnum ApiFactory" where
  "circularA = \<lparr>api = ref ''a'', deps = [(''bi'', ref ''b'')], factory = (\<lambda>_. Val (Num 1))\<rparr>"

definition circularB :: "jsnum ApiFactory" where
  "circularB = \<lparr>api = ref ''b'', deps = [(''ai'', ref ''a'')], factory = (\<lambda>_. Val (Num 2))\<rparr>"

definition leafB :: "jsnum ApiFactory" where
  "leafB = \<lparr>api = ref ''b'', deps = [], factory = (\<lambda>_. Val (Num 1))\<rparr>"

definition danglingB :: "jsnum ApiFactory" where
  "danglingB = \<lparr>api = ref ''b'', deps = [(''ai'', ref ''a'')], factory = (\<lambda>_. Val (Num 2))\<rparr>"

definition circularA' :: "jsnum ApiFactory" where
  "circularA' = \<lparr>api = ref ''a'', deps = [(''x'', ref ''missing''), (''bi'', ref ''b'')],
     factory = (\<lambda>_. Val (Num 1))\<rparr>"

definition dependentA :: "jsnum ApiFactory" where
  "dependentA = \<lparr>api = ref ''a'', deps = [(''bi'', ref ''b'')],
     factory = (\<lambda>d. plus_any (get_prop d ''bi'') (Val (Num 1)))\<rparr>"

text \<open>The heap holding these objects at the addresses 0 to 12, and the initial store.\<close>

definition heap_of :: "'v ApiFactory list \<Rightarrow> 'v heap" where
  "heap_of objs n =
     (if n < length objs then objs ! n
      else \<lparr>api = ref [], deps = [], factory = (\<lambda>_. Undefined)\<rparr>)"

definition test_heap :: "jsnum heap" where
  "test_heap = heap_of [apiA, apiB, apiC, apiD, apiE, apiA2, danglingC, circularA, circularB,
     leafB, danglingB, circularA', dependentA]"

definition store0 :: "'v store" where
  "store0 = \<lparr>maps = (\<lambda>_. Map.empty), fresh = 0\<rparr>"

text \<open>
  The outcome of a call of \<open>with\<close> as a test observes it: the error, or what the new
  resolver resolves an identifier to.
\<close>

definition outcome :: "(error + ApiResolver) \<times> 'v store \<Rightarrow> string \<Rightarrow> error + 'v jsval" where
  "outcome x k = (case fst x of Inl e \<Rightarrow> Inl e | Inr r \<Rightarrow> Inr (resolve (snd x) r (ref k)))"

text \<open>\<open>with([b]).with([a])\<close>: the second call runs on the resolver the first returns.\<close>

definition incremental ::
  "'v heap \<Rightarrow> ApiResolver \<Rightarrow> nat \<Rightarrow> nat \<Rightarrow> 'v store \<Rightarrow> (error + ApiResolver) \<times> 'v store"
where
  "incremental H r a b s =
     (case with' H r [b] s of
        (Inl e, s1) \<Rightarrow> (Inl e, s1)
      | (Inr r1, s1) \<Rightarrow> with' H r1 [a] s1)"

section \<open>Properties of placement and instantiation\<close>

subsection \<open>Finding the factory of an identifier\<close>

lemma find_factory_Some:
  "find_factory H fs k = Some g \<Longrightarrow> g \<in> set fs \<and> api_id H g = k"
  by (auto simp: find_factory_def find_Some_iff)

lemma find_factory_None: "find_factory H fs k = None \<longleftrightarrow> k \<notin> api_id H ` set fs"
  by (auto simp: find_factory_def find_None_iff)

lemma find_factory_distinct:
  "distinct (map (api_id H) fs) \<Longrightarrow> g \<in> set fs \<Longrightarrow> find_factory H fs (api_id H g) = Some g"
proof (induction fs)
  case Nil
  then show ?case by simp
next
  case (Cons x xs)
  then show ?case by (auto simp: find_factory_def)
qed

subsection \<open>The queue only grows, by unregistered factories of the batch\<close>

lemma enqueue_sets:
  "enqueueDepthFirst H m fs f seen q = Inr q' \<Longrightarrow>
     set q \<subseteq> set q' \<and> f \<in> set q' \<and> set q' \<subseteq> insert f (set q \<union> unregistered H m fs)"
  "enqueueDeps H m fs ds seen q = Inr q' \<Longrightarrow>
     set q \<subseteq> set q' \<and> set q' \<subseteq> set q \<union> unregistered H m fs"
proof (induction H m fs f seen q and H m fs ds seen q arbitrary: q' and q'
        rule: enqueueDepthFirst_enqueueDeps.induct)
  case (1 H apis factories f seen queue)
  then show ?case by (auto split: sum.splits if_splits)
next
  case (2 H apis factories seen queue)
  then show ?case by simp
next
  case (3 H apis factories depRef rest seen queue)
  show ?case
  proof (cases "Map_has apis (id' depRef)")
    case True
    with 3 show ?thesis by (auto split: if_splits)
  next
    case False
    with "3.prems" obtain g q1 where
      ns: "id' depRef \<notin> set seen" and
      g: "find_factory H factories (id' depRef) = Some g" and
      q1: "enqueueDepthFirst H apis factories g (seen @ [id' depRef]) queue = Inr q1" and
      q': "enqueueDeps H apis factories rest seen q1 = Inr q'"
      by (auto split: if_splits option.splits sum.splits)
    from "3.IH"(2)[OF ns False g q1] 
    have a: "set queue \<subseteq> set q1" "set q1 \<subseteq> insert g (set queue \<union> unregistered H apis factories)"
      by auto
    from "3.IH"(3)[OF ns False g q1 q']
    have b: "set q1 \<subseteq> set q'" "set q' \<subseteq> set q1 \<union> unregistered H apis factories"
      by auto
    from g False have "g \<in> unregistered H apis factories"
      using find_factory_Some[OF g] by (auto simp: unregistered_def)
    with a b show ?thesis by auto
  qed
qed

subsection \<open>A valid part of the batch is placed in dependency order\<close>

lemma ordered_snoc:
  "ordered H D (q @ [g]) \<longleftrightarrow>
     ordered H D q \<and> set (dep_ids H g) \<subseteq> D \<union> api_id H ` set q \<and>
     api_id H g \<notin> D \<union> api_id H ` set q"
  by (induction q arbitrary: D) auto

lemma closed_part_dep:
  "closed_part H m fs S \<Longrightarrow> f \<in> S \<Longrightarrow> d \<in> set (dep_ids H f) \<Longrightarrow> \<not> Map_has m d \<Longrightarrow>
     \<exists>g'\<in>S. find_factory H fs d = Some g'"
  unfolding closed_part_def by blast

lemma dep_not_seen:
  assumes cp: "closed_part H m fs S" and f: "f \<in> S" and d: "d \<in> set (dep_ids H f)"
    and path: "on_path H m S f seen"
  shows "d \<notin> set seen"
proof
  assume seen: "d \<in> set seen"
  with path have nh: "\<not> Map_has m d"
    and r': "d \<in> api_id H ` S \<longrightarrow> (api_id H f, d) \<in> (dep_rel H S)\<^sup>*"
    by (auto simp: on_path_def)
  from closed_part_dep[OF cp f d nh] obtain g' where "g' \<in> S" "find_factory H fs d = Some g'"
    by blast
  then have dS: "d \<in> api_id H ` S" using find_factory_Some by fastforce
  with r' have r: "(api_id H f, d) \<in> (dep_rel H S)\<^sup>*" by simp
  from dS f d have "(d, api_id H f) \<in> dep_rel H S" by (auto simp: dep_rel_def)
  with r have "(d, d) \<in> (dep_rel H S)\<^sup>+" by auto
  moreover from cp have "acyclic (dep_rel H S)" by (simp add: closed_part_def)
  ultimately show False by (simp add: acyclic_def)
qed

lemma on_path_step:
  assumes cp: "closed_part H m fs S" and f: "f \<in> S" and d: "d \<in> set (dep_ids H f)"
    and nh: "\<not> Map_has m d" and g: "find_factory H fs d = Some g"
    and path: "on_path H m S f seen"
  shows "g \<in> S \<and> on_path H m S g (seen @ [d])"
proof -
  from closed_part_dep[OF cp f d nh] obtain g' where g': "g' \<in> S" "find_factory H fs d = Some g'"
    by blast
  with g have gS: "g \<in> S" by simp
  have gid: "api_id H g = d" using find_factory_Some[OF g] by simp
  then have "d \<in> api_id H ` S" using gS by auto
  with f d have e: "(d, api_id H f) \<in> dep_rel H S" by (auto simp: dep_rel_def)
  have "on_path H m S g (seen @ [d])"
    unfolding on_path_def
  proof
    fix s assume "s \<in> set (seen @ [d])"
    then consider "s \<in> set seen" | "s = d" by auto
    then show "\<not> Map_has m s \<and>
        (s \<in> api_id H ` S \<longrightarrow> (api_id H g, s) \<in> (dep_rel H S)\<^sup>*)"
    proof cases
      case 1
      with path have "\<not> Map_has m s"
        "s \<in> api_id H ` S \<longrightarrow> (api_id H f, s) \<in> (dep_rel H S)\<^sup>*"
        by (auto simp: on_path_def)
      with e gid show ?thesis by (auto intro: converse_rtrancl_into_rtrancl)
    next
      case 2
      with nh gid show ?thesis by simp
    qed
  qed
  with gS show ?thesis by simp
qed

lemma enqueue_ok:
  "closed_part H m fs S \<Longrightarrow> f \<in> S \<Longrightarrow> set q \<subseteq> S \<Longrightarrow> ordered H (dom m) q \<Longrightarrow>
     on_path H m S f seen \<Longrightarrow>
     \<exists>q'. enqueueDepthFirst H m fs f seen q = Inr q' \<and> set q' \<subseteq> S \<and> ordered H (dom m) q'"
  "closed_part H m fs S \<Longrightarrow> f' \<in> S \<Longrightarrow> set ds \<subseteq> set (dep_refs H f') \<Longrightarrow> set q \<subseteq> S \<Longrightarrow>
     ordered H (dom m) q \<Longrightarrow> on_path H m S f' seen \<Longrightarrow>
     \<exists>q'. enqueueDeps H m fs ds seen q = Inr q' \<and> set q' \<subseteq> S \<and> ordered H (dom m) q' \<and>
          (\<forall>d\<in>set ds. Map_has m (id' d) \<or> id' d \<in> api_id H ` set q')"
proof (induction H m fs f seen q and H m fs ds seen q arbitrary: and f'
        rule: enqueueDepthFirst_enqueueDeps.induct)
  case (1 H apis factories f seen queue)
  from "1.IH"[OF "1.prems"(1,2) subset_refl "1.prems"(3,4,5)]
  obtain q1 where q1: "enqueueDeps H apis factories (dep_refs H f) seen queue = Inr q1"
    and sub: "set q1 \<subseteq> S" and ord: "ordered H (dom apis) q1"
    and sat: "\<forall>d\<in>set (dep_refs H f). Map_has apis (id' d) \<or> id' d \<in> api_id H ` set q1"
    by blast
  show ?case
  proof (cases "f \<in> set q1")
    case True
    with q1 sub ord show ?thesis by simp
  next
    case False
    from "1.prems"(1) have inj: "inj_on (api_id H) S"
      and fresh: "\<forall>g\<in>S. \<not> Map_has apis (api_id H g)"
      by (auto simp: closed_part_def)
    have a: "set (dep_ids H f) \<subseteq> dom apis \<union> api_id H ` set q1"
      using sat by (auto simp: dep_ids_def Map_has_def)
    have b: "api_id H f \<notin> dom apis"
      using fresh "1.prems"(2) by (auto simp: Map_has_def)
    have c: "api_id H f \<notin> api_id H ` set q1"
    proof
      assume "api_id H f \<in> api_id H ` set q1"
      then obtain g where "g \<in> set q1" "api_id H f = api_id H g" by auto
      with inj sub "1.prems"(2) have "f = g" by (auto dest: inj_onD)
      with \<open>g \<in> set q1\<close> False show False by simp
    qed
    from a b c ord have "ordered H (dom apis) (q1 @ [f])"
      by (simp add: ordered_snoc)
    with q1 sub False "1.prems"(2) show ?thesis by simp
  qed
next
  case (2 H apis factories seen queue)
  then show ?case by simp
next
  case (3 H apis factories depRef rest seen queue)
  have dmem: "id' depRef \<in> set (dep_ids H f')"
    using "3.prems"(3) by (auto simp: dep_ids_def)
  have ns: "id' depRef \<notin> set seen"
    by (rule dep_not_seen[OF "3.prems"(1,2) dmem "3.prems"(6)])
  have rest: "set rest \<subseteq> set (dep_refs H f')" using "3.prems"(3) by simp
  show ?case
  proof (cases "Map_has apis (id' depRef)")
    case True
    from "3.IH"(1)[OF ns True "3.prems"(1,2) rest "3.prems"(4,5,6)]
    show ?thesis using ns True by auto
  next
    case False
    from closed_part_dep[OF "3.prems"(1,2) dmem False]
    obtain g where g: "find_factory H factories (id' depRef) = Some g" by blast
    from on_path_step[OF "3.prems"(1,2) dmem False g "3.prems"(6)]
    have gS: "g \<in> S" and gp: "on_path H apis S g (seen @ [id' depRef])" by auto
    from "3.IH"(2)[OF ns False g "3.prems"(1) gS "3.prems"(4,5) gp]
    obtain q1 where q1: "enqueueDepthFirst H apis factories g (seen @ [id' depRef]) queue = Inr q1"
      and sub1: "set q1 \<subseteq> S" and ord1: "ordered H (dom apis) q1" by blast
    from "3.IH"(3)[OF ns False g q1 "3.prems"(1,2) rest sub1 ord1 "3.prems"(6)]
    obtain q' where q': "enqueueDeps H apis factories rest seen q1 = Inr q'"
      and sub': "set q' \<subseteq> S" and ord': "ordered H (dom apis) q'"
      and sat': "\<forall>d\<in>set rest. Map_has apis (id' d) \<or> id' d \<in> api_id H ` set q'" by blast
    from enqueue_sets(1)[OF q1] have "g \<in> set q1" by simp
    moreover from enqueue_sets(2)[OF q'] have "set q1 \<subseteq> set q'" by simp
    ultimately have "g \<in> set q'" by auto
    moreover have "api_id H g = id' depRef" using find_factory_Some[OF g] by simp
    ultimately have "id' depRef \<in> api_id H ` set q'" by force
    with q' sub' ord' sat' ns False g q1 show ?thesis by simp
  qed
qed

lemma placeAll_ok:
  "closed_part H m fs S \<Longrightarrow> set rest \<subseteq> S \<Longrightarrow> set q \<subseteq> S \<Longrightarrow> ordered H (dom m) q \<Longrightarrow>
     \<exists>q'. placeAll H m fs rest q = Inr q' \<and> set q' \<subseteq> S \<and> ordered H (dom m) q' \<and>
          set q \<union> set rest \<subseteq> set q'"
proof (induction rest arbitrary: q)
  case Nil
  then show ?case by simp
next
  case (Cons f rest)
  from Cons.prems have fS: "f \<in> S" by simp
  with Cons.prems(1) have nh: "\<not> Map_has m (api_id H f)" by (auto simp: closed_part_def)
  then have path: "on_path H m S f [api_id H f]" by (simp add: on_path_def)
  from enqueue_ok(1)[OF Cons.prems(1) fS Cons.prems(3,4) path]
  obtain q1 where q1: "enqueueDepthFirst H m fs f [api_id H f] q = Inr q1"
    and sub1: "set q1 \<subseteq> S" and ord1: "ordered H (dom m) q1" by blast
  from Cons.prems(2) have "set rest \<subseteq> S" by simp
  from Cons.IH[OF Cons.prems(1) this sub1 ord1]
  obtain q' where q': "placeAll H m fs rest q1 = Inr q'" and sub': "set q' \<subseteq> S"
    and ord': "ordered H (dom m) q'" and inc: "set q1 \<union> set rest \<subseteq> set q'" by blast
  from enqueue_sets(1)[OF q1] have "set q \<subseteq> set q1" "f \<in> set q1" by auto
  with inc have "set q \<union> set (f # rest) \<subseteq> set q'" by auto
  with q' sub' ord' nh q1 show ?case by simp
qed

subsection \<open>Instantiation in dependency order solves the equations\<close>

lemma instantiate_frame:
  "fresh (instantiate H a q s) = fresh s"
  "b \<noteq> a \<Longrightarrow> maps (instantiate H a q s) b = maps s b"
  by (induction q arbitrary: s) (auto simp: Map_set_def Let_def)

lemma instantiate_dom:
  "dom (maps (instantiate H a q s) a) = dom (maps s a) \<union> api_id H ` set q"
  by (induction q arbitrary: s) (auto simp: Map_set_def Let_def)

lemma instantiate_keep:
  "k \<notin> api_id H ` set q \<Longrightarrow> maps (instantiate H a q s) a k = maps s a k"
  by (induction q arbitrary: s) (auto simp: Map_set_def Let_def)

lemma mapValues_cong:
  "(\<And>x. x \<in> snd ` set obj \<Longrightarrow> g x = h x) \<Longrightarrow> mapValues g obj = mapValues h obj"
  by (force simp: mapValues_def)

lemma Map_get_le: "m \<subseteq>\<^sub>m m' \<Longrightarrow> k \<in> dom m \<Longrightarrow> Map_get m' k = Map_get m k"
  by (auto simp: Map_get_def map_le_def split: option.splits)

lemma instantiate_ordered:
  "ordered H (dom (maps s a)) q \<Longrightarrow>
     maps s a \<subseteq>\<^sub>m maps (instantiate H a q s) a \<and>
     (\<forall>g\<in>set q. maps (instantiate H a q s) a (api_id H g) =
        Some (factory (H g)
          (mapValues (\<lambda>ref. Map_get (maps (instantiate H a q s) a) (id' ref)) (deps (H g)))))"
proof (induction q arbitrary: s)
  case Nil
  then show ?case by simp
next
  case (Cons g q)
  define v where "v = factory (H g) (mapValues (\<lambda>ref. Map_get (maps s a) (id' ref)) (deps (H g)))"
  define s1 where "s1 = Map_set a (api_id H g) v s"
  define m' where "m' = maps (instantiate H a q s1) a"
  have step: "instantiate H a (g # q) s = instantiate H a q s1"
    by (simp add: s1_def v_def Let_def)
  have m1: "maps s1 a = (maps s a)(api_id H g \<mapsto> v)"
    by (simp add: s1_def Map_set_def)
  from Cons.prems have deps: "set (dep_ids H g) \<subseteq> dom (maps s a)"
    and new: "api_id H g \<notin> dom (maps s a)"
    and ord: "ordered H (dom (maps s1 a)) q"
    by (simp_all add: m1)
  from Cons.IH[OF ord] have le1: "maps s1 a \<subseteq>\<^sub>m m'"
    and eqs: "\<forall>g'\<in>set q. m' (api_id H g') =
        Some (factory (H g') (mapValues (\<lambda>ref. Map_get m' (id' ref)) (deps (H g'))))"
    by (simp_all add: m'_def)
  from new have le0: "maps s a \<subseteq>\<^sub>m maps s1 a"
    by (auto simp: m1 map_le_def)
  from le0 le1 have le: "maps s a \<subseteq>\<^sub>m m'" by (rule map_le_trans)
  have "m' (api_id H g) = Some v"
    using le1 by (auto simp: m1 map_le_def dom_def)
  moreover have "mapValues (\<lambda>ref. Map_get m' (id' ref)) (deps (H g))
      = mapValues (\<lambda>ref. Map_get (maps s a) (id' ref)) (deps (H g))"
  proof (rule mapValues_cong)
    fix x assume "x \<in> snd ` set (deps (H g))"
    then have "id' x \<in> set (dep_ids H g)" by (auto simp: dep_ids_def dep_refs_def)
    with deps have "id' x \<in> dom (maps s a)" by auto
    with le show "Map_get m' (id' x) = Map_get (maps s a) (id' x)" by (rule Map_get_le)
  qed
  ultimately have "m' (api_id H g) =
      Some (factory (H g) (mapValues (\<lambda>ref. Map_get m' (id' ref)) (deps (H g))))"
    by (simp add: v_def)
  with eqs le show ?case unfolding step m'_def[symmetric] by simp
qed

lemma instantiate_solves:
  assumes "ordered H (dom (maps s a)) q"
  shows "solves H (maps s a) (set q) (maps (instantiate H a q s) a)"
proof -
  from instantiate_ordered[OF assms] have
    le: "maps s a \<subseteq>\<^sub>m maps (instantiate H a q s) a" and
    eqs: "\<forall>g\<in>set q. maps (instantiate H a q s) a (api_id H g) =
        Some (factory (H g)
          (mapValues (\<lambda>ref. Map_get (maps (instantiate H a q s) a) (id' ref)) (deps (H g))))"
    by blast+
  from le have "\<forall>k\<in>dom (maps s a). maps (instantiate H a q s) a k = maps s a k"
    by (auto simp: map_le_def)
  with eqs show ?thesis unfolding solves_def by (simp add: instantiate_dom)
qed

subsection \<open>The canonical values are the solution\<close>

lemma dep_rel_range: "(d, k) \<in> dep_rel H S \<Longrightarrow> d \<in> api_id H ` S \<and> k \<in> api_id H ` S"
  by (auto simp: dep_rel_def)

lemma below_self: "k \<in> api_id H ` S \<Longrightarrow> k \<in> below H S k"
  by (simp add: below_def)

lemma below_outside:
  assumes "d \<notin> api_id H ` S"
  shows "below H S d = {}"
proof -
  have "j \<notin> api_id H ` S" if "(j, d) \<in> (dep_rel H S)\<^sup>*" for j
    using that assms
    by (cases rule: rtranclE) (auto dest: dep_rel_range)
  then show ?thesis by (auto simp: below_def)
qed

lemma below_step:
  assumes ac: "acyclic (dep_rel H S)" and e: "(d, k) \<in> dep_rel H S"
  shows "below H S d \<subset> below H S k"
proof -
  have sub: "below H S d \<subseteq> below H S k"
    using e by (auto simp: below_def intro: rtrancl_into_rtrancl)
  have kin: "k \<in> below H S k"
    using dep_rel_range[OF e] by (simp add: below_self)
  have "k \<notin> below H S d"
  proof
    assume "k \<in> below H S d"
    then have "(k, d) \<in> (dep_rel H S)\<^sup>*" by (simp add: below_def)
    from this e have "(k, k) \<in> (dep_rel H S)\<^sup>+" by (rule rtrancl_into_trancl1)
    with ac show False by (simp add: acyclic_def)
  qed
  with sub kin show ?thesis by auto
qed

lemma solves_outside:
  assumes "solves H base S m" and "base k = None" and "k \<notin> api_id H ` S"
  shows "m k = None"
proof -
  from assms(2,3) have "k \<notin> dom base \<union> api_id H ` S" by (simp add: domIff)
  with assms(1) have "k \<notin> dom m" unfolding solves_def by simp
  then show ?thesis by (simp add: domIff)
qed

lemma solves_base:
  assumes "solves H base S m" and "base k = Some v"
  shows "m k = Some v"
  using assms unfolding solves_def by (metis domI)

lemma canonical_solves_fuel:
  assumes ac: "acyclic (dep_rel H (set fs))" and sol: "solves H base (set fs) m"
  shows "card (below H (set fs) k) \<le> n \<Longrightarrow> canonical H base fs n k = Map_get m k"
proof (induction n arbitrary: k)
  case 0
  have fin: "finite (below H (set fs) k)" by (simp add: below_def)
  with 0 have "below H (set fs) k = {}" by simp
  then have nk: "k \<notin> api_id H ` set fs" using below_self by fastforce
  show ?case
  proof (cases "base k")
    case None
    with nk sol have "m k = None" by (simp add: solves_outside)
    with None show ?thesis by (simp add: Map_get_def)
  next
    case (Some v)
    with sol have "m k = Some v" by (simp add: solves_base)
    with Some show ?thesis by (simp add: Map_get_def)
  qed
next
  case (Suc n)
  show ?case
  proof (cases "base k")
    case (Some v)
    with sol have "m k = Some v" by (simp add: solves_base)
    with Some show ?thesis by (simp add: Map_get_def)
  next
    case None
    show ?thesis
    proof (cases "find_factory H fs k")
      case nf: None
      then have "k \<notin> api_id H ` set fs" by (simp add: find_factory_None)
      with None sol have "m k = None" by (simp add: solves_outside)
      with None nf show ?thesis by (simp add: Map_get_def)
    next
      case (Some g)
      then have g: "g \<in> set fs" and gk: "api_id H g = k"
        using find_factory_Some by fastforce+
      from sol g gk have mk: "m k =
          Some (factory (H g) (mapValues (\<lambda>ref. Map_get m (id' ref)) (deps (H g))))"
        by (auto simp: solves_def)
      have "mapValues (\<lambda>ref. canonical H base fs n (id' ref)) (deps (H g))
          = mapValues (\<lambda>ref. Map_get m (id' ref)) (deps (H g))"
      proof (rule mapValues_cong)
        fix x assume x: "x \<in> snd ` set (deps (H g))"
        then have dx: "id' x \<in> set (dep_ids H g)" by (auto simp: dep_ids_def dep_refs_def)
        have "card (below H (set fs) (id' x)) \<le> n"
        proof (cases "id' x \<in> api_id H ` set fs")
          case True
          with g gk dx have "(id' x, k) \<in> dep_rel H (set fs)" by (auto simp: dep_rel_def)
          from below_step[OF ac this]
          have "card (below H (set fs) (id' x)) < card (below H (set fs) k)"
            by (intro psubset_card_mono) (auto simp: below_def)
          with Suc.prems show ?thesis by simp
        next
          case False
          then show ?thesis by (simp add: below_outside)
        qed
        then show "canonical H base fs n (id' x) = Map_get m (id' x)" by (rule Suc.IH)
      qed
      with None Some mk show ?thesis by (simp add: Map_get_def)
    qed
  qed
qed

lemma canonical_solves:
  assumes ac: "acyclic (dep_rel H (set fs))" and sol: "solves H base (set fs) m"
  shows "canonical H base fs (length fs) k = Map_get m k"
proof -
  have "below H (set fs) k \<subseteq> api_id H ` set fs" by (auto simp: below_def)
  then have "card (below H (set fs) k) \<le> card (api_id H ` set fs)"
    by (intro card_mono) auto
  also have "\<dots> \<le> card (set fs)" by (intro card_image_le) simp
  also have "\<dots> \<le> length fs" by (rule card_length)
  finally show ?thesis by (rule canonical_solves_fuel[OF ac sol])
qed

subsection \<open>The batch as a valid part\<close>

lemma copied_simps:
  "maps (copied s r) (fresh s) = maps s (apis r)"
  "b \<noteq> fresh s \<Longrightarrow> maps (copied s r) b = maps s b"
  "fresh (copied s r) = Suc (fresh s)"
  by (simp_all add: copied_def new_Map_def)

lemma with'_unfold:
  "with' H r fs s =
     (case placeAll H (maps s (apis r)) fs fs [] of
        Inl e \<Rightarrow> (Inl e, copied s r)
      | Inr q \<Rightarrow> (Inr (ApiResolver (fresh s)), instantiate H (fresh s) q (copied s r)))"
  by (simp add: with'_def copied_def new_Map_def split: sum.splits)

lemma closed_part_batch:
  assumes ac: "acyclic (dep_rel H (set fs))" and sat: "satisfiable H m fs"
    and dist: "distinct (map (api_id H) fs)" and new: "unregistered_batch H m fs"
    and perm: "set ps = set fs"
  shows "closed_part H m ps (set fs)"
  unfolding closed_part_def
proof (intro conjI ballI)
  show "set fs \<subseteq> set ps" using perm by simp
  show "inj_on (api_id H) (set fs)" using dist by (simp add: distinct_map)
  show "\<not> Map_has m (api_id H g)" if "g \<in> set fs" for g
    using new that by (simp add: unregistered_batch_def)
  show "acyclic (dep_rel H (set fs))" by (rule ac)
  show "Map_has m d \<or> (\<exists>g'\<in>set fs. find_factory H ps d = Some g')"
    if "g \<in> set fs" "d \<in> set (dep_ids H g)" for g d
  proof (cases "Map_has m d")
    case True
    then show ?thesis by simp
  next
    case False
    with sat that have "d \<in> api_id H ` set ps" by (auto simp: satisfiable_def perm)
    then have "find_factory H ps d \<noteq> None" by (simp add: find_factory_None)
    then obtain g' where g': "find_factory H ps d = Some g'" by auto
    with find_factory_Some[OF g'] perm show ?thesis by auto
  qed
qed

subsection \<open>Acyclicity by a rank, the tests' permutations, evaluation\<close>

lemma acyclic_by_rank:
  fixes rank :: "string \<Rightarrow> nat"
  assumes "\<forall>f\<in>S. \<forall>d\<in>set (dep_ids H f). rank d < rank (api_id H f)"
  shows "acyclic (dep_rel H S)"
proof -
  have "acyclic ((dep_rel H S)\<inverse>)"
  proof (rule acyclicI_order[where f = rank])
    fix a b assume "(a, b) \<in> (dep_rel H S)\<inverse>"
    with assms show "rank b < rank a" by (auto simp: dep_rel_def)
  qed
  then show ?thesis by simp
qed

lemma permute_mset: "ps \<in> set (permute arr m) \<Longrightarrow> mset ps = mset m + mset arr"
proof (induction arr m arbitrary: ps rule: permute.induct)
  case (1 m)
  then show ?case by simp
next
  case (2 x xs m)
  let ?l = "x # xs"
  from "2.prems" obtain i where mem: "i \<in> set [0..<length ?l]"
    and ps: "ps \<in> set (permute (take i ?l @ drop (Suc i) ?l) (m @ [?l ! i]))"
    unfolding permute.simps set_concat set_map by blast
  from mem have i: "i < length ?l" by auto
  from "2.IH"[OF mem ps]
  have "mset ps = mset m + (mset (take i ?l) + {#?l ! i#} + mset (drop (Suc i) ?l))"
    by simp
  also have "mset (take i ?l) + {#?l ! i#} + mset (drop (Suc i) ?l)
      = mset (take i ?l @ ?l ! i # drop (Suc i) ?l)" by simp
  also have "take i ?l @ ?l ! i # drop (Suc i) ?l = ?l"
    using i by (rule id_take_nth_drop[symmetric])
  finally show ?case .
qed

lemma allPermutations_mset: "ps \<in> set (allPermutations xs) \<Longrightarrow> mset ps = mset xs"
  by (simp add: allPermutations_def permute_mset)

lemmas test_defs = test_heap_def heap_of_def apiA_def apiB_def apiC_def apiD_def apiE_def
  apiA2_def danglingC_def circularA_def circularB_def leafB_def danglingB_def circularA'_def dependentA_def
  ref_def store0_def get_prop_def api_id_def dep_refs_def dep_ids_def

lemmas run_defs = with_static_def empty'_def with'_def new_Map_def Map_set_def Map_has_def
  Map_get_def find_factory_def mapValues_def resolve_def registry_of_def outcome_def Let_def

subsection \<open>What a successful placement holds\<close>

lemma placeAll_sets:
  "placeAll H m fs rest q = Inr q' \<Longrightarrow>
     set q \<union> set rest \<subseteq> set q' \<and> set q' \<subseteq> set q \<union> set rest \<union> unregistered H m fs \<and>
     (\<forall>f\<in>set rest. \<not> Map_has m (api_id H f))"
proof (induction rest arbitrary: q)
  case Nil
  then show ?case by simp
next
  case (Cons f rest)
  from Cons.prems obtain q1 where nh: "\<not> Map_has m (api_id H f)"
    and q1: "enqueueDepthFirst H m fs f [api_id H f] q = Inr q1"
    and q': "placeAll H m fs rest q1 = Inr q'"
    by (auto split: if_splits sum.splits)
  from enqueue_sets(1)[OF q1] Cons.IH[OF q'] nh show ?case by auto
qed

lemma placeAll_batch:
  assumes "placeAll H m fs fs [] = Inr q"
  shows "set q = set fs" and "\<forall>f\<in>set fs. \<not> Map_has m (api_id H f)"
  using placeAll_sets[OF assms] by (auto simp: unregistered_def)

subsection \<open>The depth of the recursion\<close>

lemma depth_enough:
  "card (api_id H ` set fs - set seen) < n \<Longrightarrow>
     enqueueDepthFirst_depth n H m fs f seen q = Some (enqueueDepthFirst H m fs f seen q)"
  "card (api_id H ` set fs - set seen) \<le> n \<Longrightarrow>
     enqueueDeps_depth n H m fs ds seen q = Some (enqueueDeps H m fs ds seen q)"
proof (induction H m fs f seen q and H m fs ds seen q arbitrary: n and n
        rule: enqueueDepthFirst_enqueueDeps.induct)
  case (1 H m factories f seen queue)
  from "1.prems" obtain k where n: "n = Suc k" by (cases n) auto
  with "1.prems" have "card (api_id H ` set factories - set seen) \<le> k" by simp
  from "1.IH"[OF this] show ?case by (simp add: n split: sum.splits)
next
  case (2 H m factories seen queue)
  then show ?case by simp
next
  case (3 H m factories depRef rest seen queue)
  show ?case
  proof (cases "id' depRef \<in> set seen")
    case True
    then show ?thesis by simp
  next
    case ns: False
    show ?thesis
    proof (cases "Map_has m (id' depRef)")
      case True
      with ns "3.IH"(1)[OF ns True "3.prems"] show ?thesis by simp
    next
      case nh: False
      show ?thesis
      proof (cases "find_factory H factories (id' depRef)")
        case None
        with ns nh show ?thesis by simp
      next
        case (Some g)
        from find_factory_Some[OF Some] have "id' depRef \<in> api_id H ` set factories" by force
        with ns have "api_id H ` set factories - set (seen @ [id' depRef])
            \<subset> api_id H ` set factories - set seen" by auto
        then have "card (api_id H ` set factories - set (seen @ [id' depRef]))
            < card (api_id H ` set factories - set seen)"
          by (intro psubset_card_mono) auto
        with "3.prems" have lt: "card (api_id H ` set factories - set (seen @ [id' depRef])) < n"
          by simp
        note df = "3.IH"(2)[OF ns nh Some lt]
        show ?thesis
        proof (cases "enqueueDepthFirst H m factories g (seen @ [id' depRef]) queue")
          case (Inl e)
          with ns nh Some df show ?thesis by simp
        next
          case (Inr q1)
          with ns nh Some df "3.IH"(3)[OF ns nh Some Inr "3.prems"] show ?thesis by simp
        qed
      qed
    qed
  qed
qed

subsection \<open>Placement fails where one step fails\<close>

lemma enqueueDeps_append:
  "enqueueDeps H m fs (xs @ ys) seen q =
     (case enqueueDeps H m fs xs seen q of
        Inl e \<Rightarrow> Inl e
      | Inr q' \<Rightarrow> enqueueDeps H m fs ys seen q')"
  by (induction xs arbitrary: q) (auto split: option.splits sum.splits)

lemma placeAll_append:
  "placeAll H m fs (xs @ ys) q =
     (case placeAll H m fs xs q of
        Inl e \<Rightarrow> Inl e
      | Inr q' \<Rightarrow> placeAll H m fs ys q')"
  by (induction xs arbitrary: q) (auto split: sum.splits)

lemma enqueueDeps_fails:
  assumes "x \<in> set ds" and "\<And>q. isl (enqueueDeps H m fs [x] seen q)"
  shows "isl (enqueueDeps H m fs ds seen q)"
proof -
  from assms(1) obtain pre post where ds: "ds = pre @ [x] @ post"
    by (auto dest: split_list)
  show ?thesis
  proof (cases "enqueueDeps H m fs pre seen q")
    case (Inl e)
    then show ?thesis by (simp add: ds enqueueDeps_append)
  next
    case (Inr q1)
    from assms(2)[of q1] obtain e where "enqueueDeps H m fs [x] seen q1 = Inl e"
      by (cases "enqueueDeps H m fs [x] seen q1") auto
    with Inr show ?thesis
      unfolding ds enqueueDeps_append[of H m fs pre] enqueueDeps_append[of H m fs "[x]"]
      by simp
  qed
qed

lemma placeAll_fails:
  assumes "f \<in> set rest"
    and "\<And>q. Map_has m (api_id H f) \<or> isl (enqueueDepthFirst H m fs f [api_id H f] q)"
  shows "isl (placeAll H m fs rest q)"
proof -
  from assms(1) obtain pre post where rest: "rest = pre @ f # post"
    by (auto dest: split_list)
  show ?thesis
  proof (cases "placeAll H m fs pre q")
    case (Inl e)
    then show ?thesis by (simp add: rest placeAll_append)
  next
    case (Inr q1)
    from assms(2)[of q1] Inr show ?thesis
      by (auto simp: rest placeAll_append split: sum.splits)
  qed
qed

lemma with'_fails:
  assumes "isl (placeAll H (registry_of s r) fs fs [])"
  shows "\<exists>e. placeAll H (registry_of s r) fs fs [] = Inl e \<and> with' H r fs s = (Inl e, copied s r)"
  using assms by (cases "placeAll H (registry_of s r) fs fs []")
    (auto simp: with'_unfold registry_of_def)

subsection \<open>Placing the dependencies of a factory outside a valid part\<close>

lemma enqueueDeps_foreign:
  assumes cp: "closed_part H m fs S"
    and seen: "\<forall>s\<in>set seen. \<not> Map_has m s \<and> s \<notin> api_id H ` S"
  shows "(\<forall>x\<in>set ds. Map_has m (id' x) \<or> (\<exists>g\<in>S. find_factory H fs (id' x) = Some g)) \<Longrightarrow>
     set q \<subseteq> S \<Longrightarrow> ordered H (dom m) q \<Longrightarrow>
     \<exists>q'. enqueueDeps H m fs ds seen q = Inr q' \<and> set q' \<subseteq> S \<and> ordered H (dom m) q'"
proof (induction ds arbitrary: q)
  case Nil
  then show ?case by simp
next
  case (Cons x ds)
  from Cons.prems(1) have rest:
    "\<forall>x\<in>set ds. Map_has m (id' x) \<or> (\<exists>g\<in>S. find_factory H fs (id' x) = Some g)"
    by simp
  show ?case
  proof (cases "Map_has m (id' x)")
    case True
    with seen have ns: "id' x \<notin> set seen" by auto
    from Cons.IH[OF rest Cons.prems(2,3)] ns True show ?thesis by simp
  next
    case False
    with Cons.prems(1) obtain g where gS: "g \<in> S" and g: "find_factory H fs (id' x) = Some g"
      by auto
    have gid: "api_id H g = id' x" using find_factory_Some[OF g] by simp
    with gS have "id' x \<in> api_id H ` S" by force
    with seen have ns: "id' x \<notin> set seen" by auto
    have path: "on_path H m S g (seen @ [id' x])"
      using seen False gid by (auto simp: on_path_def)
    from enqueue_ok(1)[OF cp gS Cons.prems(2,3) path]
    obtain q1 where q1: "enqueueDepthFirst H m fs g (seen @ [id' x]) q = Inr q1"
      and sub1: "set q1 \<subseteq> S" and ord1: "ordered H (dom m) q1" by blast
    from Cons.IH[OF rest sub1 ord1] ns False g q1 show ?thesis by simp
  qed
qed

lemma closed_part_others:
  assumes ac: "acyclic (dep_rel H (set others))" and sat: "satisfiable H m others"
    and dist: "distinct (map (api_id H) fs)" and new: "unregistered_batch H m fs"
    and sub: "set others \<subseteq> set fs"
  shows "closed_part H m fs (set others)"
  unfolding closed_part_def
proof (intro conjI ballI)
  show "set others \<subseteq> set fs" by (rule sub)
  from dist have inj: "inj_on (api_id H) (set fs)" by (simp add: distinct_map)
  then show "inj_on (api_id H) (set others)" using sub by (rule inj_on_subset)
  show "\<not> Map_has m (api_id H g)" if "g \<in> set others" for g
    using new sub that by (auto simp: unregistered_batch_def)
  show "acyclic (dep_rel H (set others))" by (rule ac)
  show "Map_has m d \<or> (\<exists>g'\<in>set others. find_factory H fs d = Some g')"
    if "g \<in> set others" "d \<in> set (dep_ids H g)" for g d
  proof (cases "Map_has m d")
    case True
    then show ?thesis by simp
  next
    case False
    with sat that obtain g' where g': "g' \<in> set others" "api_id H g' = d"
      by (auto simp: satisfiable_def)
    with sub have "g' \<in> set fs" by auto
    from find_factory_distinct[OF dist this] g' show ?thesis by auto
  qed
qed

subsection \<open>Skipping registered dependencies\<close>

lemma enqueueDeps_registered:
  "\<forall>x\<in>set pre. Map_has m (id' x) \<Longrightarrow> \<forall>s\<in>set seen. \<not> Map_has m s \<Longrightarrow>
     enqueueDeps H m fs (pre @ rest) seen q = enqueueDeps H m fs rest seen q"
  by (induction pre) auto

lemma dep_ids_split:
  assumes "dep_ids H f = pre @ d # post"
  shows "\<exists>pre' dref post'. dep_refs H f = pre' @ dref # post' \<and> map id' pre' = pre \<and> id' dref = d"
  using assms by (auto simp: dep_ids_def map_eq_append_conv map_eq_Cons_conv)

subsection \<open>A factory over registered dependencies, and a pair\<close>

lemma enqueueDeps_all_registered:
  "\<forall>x\<in>set ds. Map_has m (id' x) \<Longrightarrow> \<forall>s\<in>set seen. \<not> Map_has m s \<Longrightarrow>
     enqueueDeps H m fs ds seen q = Inr q"
  using enqueueDeps_registered[of ds m seen H fs "[]" q] by simp

lemma enqueueDeps_same_leaf:
  assumes leaf: "\<And>q. enqueueDepthFirst H m fs g (seen @ [k]) q = Inr (if g \<in> set q then q else q @ [g])"
    and k: "k \<notin> set seen" "\<not> Map_has m k" "find_factory H fs k = Some g"
  shows "\<forall>x\<in>set ds. id' x = k \<Longrightarrow>
     enqueueDeps H m fs ds seen q = Inr (if ds = [] \<or> g \<in> set q then q else q @ [g])"
proof (induction ds arbitrary: q)
  case Nil
  then show ?case by simp
next
  case (Cons x ds)
  from Cons.prems have x: "id' x = k" and rest: "\<forall>x\<in>set ds. id' x = k" by simp_all
  show ?case
    using k leaf Cons.IH[OF rest]
    by (simp add: x del: enqueueDepthFirst.simps)
qed

lemma with'_single:
  assumes reg: "\<forall>d\<in>set (dep_ids H f). Map_has (registry_of s r) d"
    and new: "\<not> Map_has (registry_of s r) (api_id H f)"
  shows "\<exists>s'. with' H r [f] s = (Inr (ApiResolver (fresh s)), s') \<and> fresh s' = Suc (fresh s) \<and>
           registry_of s' (ApiResolver (fresh s)) =
             (registry_of s r)(api_id H f \<mapsto>
                factory (H f) (mapValues (\<lambda>ref. Map_get (registry_of s r) (id' ref)) (deps (H f))))"
proof -
  let ?m = "registry_of s r"
  have "\<forall>x\<in>set (dep_refs H f). Map_has ?m (id' x)"
    using reg by (simp add: dep_ids_def)
  then have "enqueueDeps H ?m [f] (dep_refs H f) [api_id H f] [] = Inr []"
    by (rule enqueueDeps_all_registered) (simp add: new)
  then have "placeAll H ?m [f] [f] [] = Inr [f]"
    using new by simp
  then show ?thesis
    by (simp add: with'_unfold registry_of_def copied_simps Map_set_def Let_def)
qed


lemma with'_pair:
  assumes only: "set (dep_ids H a) = {api_id H b}"
    and reg: "\<forall>d\<in>set (dep_ids H b). Map_has (registry_of s r) d"
    and na: "\<not> Map_has (registry_of s r) (api_id H a)"
    and nb: "\<not> Map_has (registry_of s r) (api_id H b)"
    and neq: "api_id H a \<noteq> api_id H b"
  shows "placeAll H (registry_of s r) [a, b] [a, b] [] = Inr [b, a]"
proof -
  let ?m = "registry_of s r"
  let ?a = "api_id H a" and ?b = "api_id H b"
  have ab: "a \<noteq> b" using neq by auto
  have regb: "\<forall>x\<in>set (dep_refs H b). Map_has ?m (id' x)"
    using reg by (simp add: dep_ids_def)
  have findb: "find_factory H [a, b] ?b = Some b"
    using neq by (simp add: find_factory_def)
  have leaf: "enqueueDepthFirst H ?m [a, b] b ([?a] @ [?b]) q
      = Inr (if b \<in> set q then q else q @ [b])" for q
  proof -
    have "enqueueDeps H ?m [a, b] (dep_refs H b) [?a, ?b] q = Inr q"
      by (rule enqueueDeps_all_registered[OF regb]) (simp add: na nb)
    then show ?thesis by simp
  qed
  have refs: "\<forall>x\<in>set (dep_refs H a). id' x = ?b" and ne: "dep_refs H a \<noteq> []"
    using only by (auto simp: dep_ids_def)
  have "enqueueDeps H ?m [a, b] (dep_refs H a) [?a] [] = Inr [b]"
    using enqueueDeps_same_leaf[OF leaf _ nb findb refs, of "[]"] neq ne by simp
  then have pa: "enqueueDepthFirst H ?m [a, b] a [?a] [] = Inr [b, a]"
    using ab by simp
  have "enqueueDeps H ?m [a, b] (dep_refs H b) [?b] [b, a] = Inr [b, a]"
    by (rule enqueueDeps_all_registered[OF regb]) (simp add: nb)
  then have pb: "enqueueDepthFirst H ?m [a, b] b [?b] [b, a] = Inr [b, a]"
    by simp
  from na nb pa pb show ?thesis by (simp del: enqueueDepthFirst.simps)
qed

section \<open>The claims\<close>

subsection \<open>C1: any arrangement of a valid batch\<close>

text \<open>
  Claim C1 (as amended). For every batch whose dependency graph is acyclic, whose
  dependency identifiers are all registered in the receiver or produced in the batch,
  whose produced identifiers are pairwise distinct and none of them registered in the
  receiver yet, and for every permutation of the batch: \<open>with\<close> of the permutation
  succeeds, and the new resolver resolves every reference to the canonical,
  dependency-respecting value of its identifier, whatever the permutation.
\<close>

theorem with_any_arrangement:
  assumes ac: "acyclic (dep_rel H (set fs))"
    and sat: "satisfiable H (registry_of s r) fs"
    and dist: "distinct (map (api_id H) fs)"
    and new: "unregistered_batch H (registry_of s r) fs"
    and perm: "mset ps = mset fs"
  shows "\<exists>r' s'. with' H r ps s = (Inr r', s') \<and>
           (\<forall>x. resolve s' r' x = canonical H (registry_of s r) fs (length fs) (id' x))"
proof -
  let ?m = "maps s (apis r)"
  let ?a = "fresh s"
  from perm have sets: "set ps = set fs" by (rule mset_eq_setD)
  have cp: "closed_part H ?m ps (set fs)"
    using closed_part_batch[OF ac _ dist _ sets] sat new by (simp add: registry_of_def)
  from placeAll_ok[OF cp, of ps "[]"] sets
  obtain q where q: "placeAll H ?m ps ps [] = Inr q" and sub: "set q \<subseteq> set fs"
    and ord: "ordered H (dom ?m) q" and sup: "set fs \<subseteq> set q"
    by auto
  from sub sup have qs: "set q = set fs" by auto
  let ?s' = "instantiate H ?a q (copied s r)"
  have w: "with' H r ps s = (Inr (ApiResolver ?a), ?s')"
    by (simp add: with'_unfold q)
  have "solves H (maps (copied s r) ?a) (set q) (maps ?s' ?a)"
    by (rule instantiate_solves) (simp add: copied_simps ord)
  then have sol: "solves H ?m (set fs) (maps ?s' ?a)"
    by (simp add: copied_simps qs)
  have "resolve ?s' (ApiResolver ?a) x = canonical H (registry_of s r) fs (length fs) (id' x)" for x :: "'t ApiRef"
    by (simp add: resolve_def registry_of_def canonical_solves[OF ac sol])
  with w show ?thesis by blast
qed

text \<open>
  The instance of the test \<open>handles any arrangement of inputs\<close>: under each of the 120
  permutations of a, b, c, d, e the static \<open>with\<close> succeeds and resolves e to 6.
\<close>

theorem with_any_arrangement_witness:
  "list_all (\<lambda>ps. outcome (with_static test_heap ps store0) ''e'' = Inr (Val (Num 6)))
     (allPermutations [0, 1, 2, 3, 4]) \<and>
   length (allPermutations [0, 1, 2, 3, 4 :: nat]) = 120"
proof -
  define rank :: "string \<Rightarrow> nat" where
    "rank k = (if k = ''a'' then 0 else if k = ''b'' then 1 else if k = ''e'' then 3 else 2)" for k
  define s1 :: "jsnum store" where "s1 = snd (empty' store0)"
  let ?fs = "[0, 1, 2, 3, 4 :: nat]"
  have e: "empty' (store0 :: jsnum store) = (ApiResolver 0, s1)"
    by (simp add: s1_def empty'_def new_Map_def store0_def)
  have reg: "registry_of s1 (ApiResolver 0) = Map.empty"
    by (simp add: s1_def empty'_def new_Map_def store0_def registry_of_def)
  have ac: "acyclic (dep_rel test_heap (set ?fs))"
    by (rule acyclic_by_rank[where rank = rank]) (simp add: rank_def test_defs)
  have sat: "satisfiable test_heap (registry_of s1 (ApiResolver 0)) ?fs"
    by (simp add: satisfiable_def test_defs)
  have dist: "distinct (map (api_id test_heap) ?fs)"
    by (simp add: test_defs)
  have new: "unregistered_batch test_heap (registry_of s1 (ApiResolver 0)) ?fs"
    by (simp add: unregistered_batch_def reg Map_has_def)
  have can: "canonical test_heap (registry_of s1 (ApiResolver 0)) ?fs (length ?fs) ''e''
      = Val (Num 6)"
    unfolding reg by (simp add: test_defs run_defs)
  have "outcome (with_static test_heap ps store0) ''e'' = Inr (Val (Num 6))"
    if "ps \<in> set (allPermutations ?fs)" for ps
  proof -
    from that have "mset ps = mset ?fs" by (rule allPermutations_mset)
    from with_any_arrangement[OF ac sat dist new this]
    obtain r' s' where w: "with' test_heap (ApiResolver 0) ps s1 = (Inr r', s')"
      and res: "resolve s' r' (ref ''e'') = canonical test_heap (registry_of s1 (ApiResolver 0))
          ?fs (length ?fs) (id' (ref ''e''))"
      by blast
    from w have "with_static test_heap ps store0 = (Inr r', s')"
      by (simp add: with_static_def e)
    with res can show ?thesis by (simp add: outcome_def ref_def)
  qed
  then have "list_all (\<lambda>ps. outcome (with_static test_heap ps store0) ''e'' = Inr (Val (Num 6)))
     (allPermutations ?fs)"
    by (simp add: list_all_iff)
  moreover have "length (allPermutations ?fs) = 120"
    by (simp add: allPermutations_def)
  ultimately show ?thesis by simp
qed

text \<open>
  The claim as stated asks only for an acyclic batch whose dependency identifiers are
  registered or produced by one factory of the batch. The batch \<open>[apiA2]\<close> on a
  resolver that holds a is such a batch, and \<open>with\<close> rejects it; the batch
  \<open>[apiA, apiA2]\<close> on the empty resolver is such a batch, and its two orders resolve a
  to different values.
\<close>

theorem with_any_arrangement_counterexample:
  "fst (with_static test_heap [0] store0) = Inr (ApiResolver 1) \<and>
   acyclic (dep_rel test_heap (set [5])) \<and>
   satisfiable test_heap (registry_of (snd (with_static test_heap [0] store0)) (ApiResolver 1)) [5] \<and>
   fst (with' test_heap (ApiResolver 1) [5] (snd (with_static test_heap [0] store0)))
     = Inl (DuplicateRegistration ''a'') \<and>
   acyclic (dep_rel test_heap (set [0, 5])) \<and>
   satisfiable test_heap (registry_of (snd (empty' store0)) (ApiResolver 0)) [0, 5] \<and>
   outcome (with_static test_heap [0, 5] store0) ''a'' = Inr (Val (Num 2)) \<and>
   outcome (with_static test_heap [5, 0] store0) ''a'' = Inr (Val (Num 1))"
proof -
  have "acyclic (dep_rel test_heap (set [5]))"
    by (rule acyclic_by_rank[where rank = "\<lambda>_. 0"]) (simp add: test_defs)
  moreover have "acyclic (dep_rel test_heap (set [0, 5]))"
    by (rule acyclic_by_rank[where rank = "\<lambda>_. 0"]) (simp add: test_defs)
  moreover have "satisfiable test_heap
      (registry_of (snd (with_static test_heap [0] store0)) (ApiResolver 1)) [5]"
    by (simp add: satisfiable_def test_defs)
  moreover have "satisfiable test_heap (registry_of (snd (empty' store0)) (ApiResolver 0)) [0, 5]"
    by (simp add: satisfiable_def test_defs)
  moreover have "fst (with_static test_heap [0] store0) = Inr (ApiResolver 1)"
    by (simp add: test_defs run_defs)
  moreover have "fst (with' test_heap (ApiResolver 1) [5] (snd (with_static test_heap [0] store0)))
     = Inl (DuplicateRegistration ''a'')"
    by (simp add: test_defs run_defs)
  moreover have "outcome (with_static test_heap [0, 5] store0) ''a'' = Inr (Val (Num 2))"
    by (simp add: test_defs run_defs)
  moreover have "outcome (with_static test_heap [5, 0] store0) ''a'' = Inr (Val (Num 1))"
    by (simp add: test_defs run_defs)
  ultimately show ?thesis by blast
qed

subsection \<open>C2: two factories for one identifier in a batch\<close>

text \<open>
  Claim C2 asks that a batch with two factories producing the same identifier is always
  an error and that no value is overwritten once present. The duplicate check of
  \<open>with\<close> reads \<open>apis\<close> before anything of the batch is written to it, and the
  queue tells factories apart by identity: the batch \<open>[apiA, apiA2]\<close> on the empty
  resolver is accepted, a is written twice, and the value that stays depends on the
  order of the batch.
\<close>

theorem duplicate_in_batch_accepted:
  "placeAll test_heap Map.empty [0, 5] [0, 5] [] = Inr [0, 5] \<and>
   api_id test_heap 0 = api_id test_heap 5 \<and>
   fst (with_static test_heap [0, 5] store0) = Inr (ApiResolver 1) \<and>
   outcome (with_static test_heap [0, 5] store0) ''a'' = Inr (Val (Num 2)) \<and>
   outcome (with_static test_heap [5, 0] store0) ''a'' = Inr (Val (Num 1))"
  by (simp add: test_defs run_defs)

subsection \<open>C3: a registered identifier is rejected\<close>

text \<open>
  Claim C3 (as amended). For every resolver and every batch containing a factory whose
  produced identifier is already a key of the receiver's registry, \<open>with\<close> fails,
  at every position of that factory and whatever the other factories are, and commits no
  entry: the store only gains the unchanged copy of the receiver's registry. The error is
  the first one met in batch order: it is DuplicateRegistration naming that identifier
  whenever the factories before it in the batch are placed without error.
\<close>

theorem registered_factory_rejected:
  assumes f: "f \<in> set fs" and reg: "Map_has (registry_of s r) (api_id H f)"
  shows "\<exists>e. with' H r fs s = (Inl e, copied s r) \<and>
           (\<forall>pre post q. fs = pre @ f # post \<and> placeAll H (registry_of s r) fs pre [] = Inr q
              \<longrightarrow> e = DuplicateRegistration (api_id H f))"
proof -
  let ?m = "registry_of s r"
  have "isl (placeAll H ?m fs fs [])"
    by (rule placeAll_fails[OF f]) (simp add: reg)
  from with'_fails[OF this] obtain e where e: "placeAll H ?m fs fs [] = Inl e"
    and w: "with' H r fs s = (Inl e, copied s r)" by blast
  have "e = DuplicateRegistration (api_id H f)"
    if "fs = pre @ f # post" "placeAll H ?m fs pre [] = Inr q" for pre post q
  proof -
    have "placeAll H ?m fs (pre @ f # post) [] = Inl (DuplicateRegistration (api_id H f))"
      unfolding placeAll_append using that(2) reg by simp
    with e that(1) show ?thesis by simp
  qed
  with w show ?thesis by blast
qed

text \<open>
  On the resolver holding a, the batch \<open>[danglingB, apiA2]\<close>: b is placed, then a
  is rejected.
\<close>

theorem registered_factory_rejected_witness:
  "fst (with' test_heap (ApiResolver 1) [10, 5] (snd (with_static test_heap [0] store0)))
     = Inl (DuplicateRegistration ''a'') \<and>
   message (DuplicateRegistration ''a'') = ''API a was already registered''"
proof -
  let ?s = "snd (with_static test_heap [0] store0)"
  let ?r = "ApiResolver 1"
  have mem: "(5::nat) \<in> set [10, 5]" by simp
  have reg: "Map_has (registry_of ?s ?r) (api_id test_heap 5)"
    by (simp add: test_defs run_defs)
  have pre: "placeAll test_heap (registry_of ?s ?r) [10, 5] [10] [] = Inr [10]"
    by (simp add: test_defs run_defs)
  have a: "api_id test_heap 5 = ''a''" by (simp add: test_defs)
  from registered_factory_rejected[OF mem reg]
  obtain e where w: "with' test_heap ?r [10, 5] ?s = (Inl e, copied ?s ?r)"
    and first: "\<forall>pre post q. [10, 5] = pre @ 5 # post \<and>
        placeAll test_heap (registry_of ?s ?r) [10, 5] pre [] = Inr q
          \<longrightarrow> e = DuplicateRegistration (api_id test_heap 5)"
    by blast
  from first pre have "e = DuplicateRegistration (api_id test_heap 5)"
    by (metis append_Cons append_Nil)
  with w a show ?thesis by simp
qed

text \<open>
  On the resolver holding a, the batch \<open>[danglingC, apiA2]\<close> contains a factory for
  the registered a, and the error is the missing dependency of c, met first.
\<close>

theorem registered_factory_rejected_counterexample:
  "Map_has (registry_of (snd (with_static test_heap [0] store0)) (ApiResolver 1))
     (api_id test_heap 5) \<and>
   fst (with' test_heap (ApiResolver 1) [6, 5] (snd (with_static test_heap [0] store0)))
     = Inl (MissingDependency [''c'', ''missing''])"
  by (simp add: test_defs run_defs)

subsection \<open>C4: a missing dependency is rejected\<close>

text \<open>
  Claim C4 (as amended). For every resolver and every batch containing a factory with a
  dependency identifier that is neither a key of the receiver's registry nor produced by
  any factory of the batch, \<open>with\<close> fails and commits no entry. The error is the
  first one met: when the other factories of the batch form a valid batch of their own
  (acyclic, every dependency registered or produced among them), all produced
  identifiers of the batch are pairwise distinct and unregistered, and the missing
  identifier is the first dependency of its factory that is neither registered nor
  produced by the others, the error is MissingDependency with the chain from that
  factory's identifier to the missing one, under every permutation of the batch.
\<close>

theorem missing_dependency_rejected:
  assumes f: "f \<in> set fs" and d: "d \<in> set (dep_ids H f)"
    and nreg: "\<not> Map_has (registry_of s r) d" and nprod: "d \<notin> api_id H ` set fs"
  shows "\<exists>e. with' H r fs s = (Inl e, copied s r) \<and>
           (\<forall>others pre post.
              mset fs = mset (f # others) \<and> acyclic (dep_rel H (set others)) \<and>
              satisfiable H (registry_of s r) others \<and> distinct (map (api_id H) fs) \<and>
              unregistered_batch H (registry_of s r) fs \<and> dep_ids H f = pre @ d # post \<and>
              (\<forall>x\<in>set pre. Map_has (registry_of s r) x \<or> x \<in> api_id H ` set others)
              \<longrightarrow> e = MissingDependency [api_id H f, d])"
proof -
  let ?m = "registry_of s r"
  have dne: "d \<noteq> api_id H f" using f nprod by auto
  have none: "find_factory H fs d = None" using nprod by (simp add: find_factory_None)
  from d obtain dref where dref: "dref \<in> set (dep_refs H f)" and did: "id' dref = d"
    by (auto simp: dep_ids_def)
  have "isl (enqueueDepthFirst H ?m fs f [api_id H f] q)" for q
  proof -
    have "isl (enqueueDeps H ?m fs (dep_refs H f) [api_id H f] q)"
      by (rule enqueueDeps_fails[OF dref]) (simp add: did nreg none)
    then show ?thesis by (auto simp: isl_def)
  qed
  then have "isl (placeAll H ?m fs fs [])"
    by (intro placeAll_fails[OF f]) simp
  from with'_fails[OF this] obtain e where e: "placeAll H ?m fs fs [] = Inl e"
    and w: "with' H r fs s = (Inl e, copied s r)" by blast
  have "e = MissingDependency [api_id H f, d]"
    if perm: "mset fs = mset (f # others)" and ac: "acyclic (dep_rel H (set others))"
      and sat: "satisfiable H ?m others" and dist: "distinct (map (api_id H) fs)"
      and new: "unregistered_batch H ?m fs" and deps: "dep_ids H f = pre @ d # post"
      and pre: "\<forall>x\<in>set pre. Map_has ?m x \<or> x \<in> api_id H ` set others"
    for others pre post
  proof -
    let ?S = "set others"
    from perm have sets: "set fs = insert f ?S" by (metis mset_eq_setD list.simps(15))
    from perm have "mset (map (api_id H) fs) = mset (map (api_id H) (f # others))" by simp
    with dist have "distinct (map (api_id H) (f # others))"
      by (metis mset_eq_imp_distinct_iff)
    then have fid: "api_id H f \<notin> api_id H ` ?S" by simp
    then have fS: "f \<notin> ?S" by auto
    have cp: "closed_part H ?m fs ?S"
      by (rule closed_part_others[OF ac sat dist new]) (auto simp: sets)
    from new f have fnew: "\<not> Map_has ?m (api_id H f)" by (simp add: unregistered_batch_def)
    from f obtain before after where fs: "fs = before @ f # after"
      by (auto dest: split_list)
    from dist have "distinct fs" by (simp add: distinct_map)
    with fs have "f \<notin> set before" by auto
    with fs sets have bS: "set before \<subseteq> ?S" by auto
    from placeAll_ok[OF cp bS, of "[]"]
    obtain q1 where q1: "placeAll H ?m fs before [] = Inr q1" and sub1: "set q1 \<subseteq> ?S"
      and ord1: "ordered H (dom ?m) q1" by auto
    from deps obtain pre' dref' post' where refs: "dep_refs H f = pre' @ dref' # post'"
      and pre': "map id' pre' = pre" and dref': "id' dref' = d"
      by (auto simp: dep_ids_def map_eq_append_conv map_eq_Cons_conv)
    have seen: "\<forall>s\<in>set [api_id H f]. \<not> Map_has ?m s \<and> s \<notin> api_id H ` ?S"
      using fnew fid by simp
    have "\<forall>x\<in>set pre'. Map_has ?m (id' x) \<or> (\<exists>g\<in>?S. find_factory H fs (id' x) = Some g)"
    proof
      fix x assume "x \<in> set pre'"
      with pre' have "id' x \<in> set pre" by auto
      with pre have "Map_has ?m (id' x) \<or> id' x \<in> api_id H ` ?S" by simp
      then show "Map_has ?m (id' x) \<or> (\<exists>g\<in>?S. find_factory H fs (id' x) = Some g)"
      proof
        assume "id' x \<in> api_id H ` ?S"
        then obtain g where g: "g \<in> ?S" "api_id H g = id' x" by auto
        with sets have "g \<in> set fs" by simp
        from find_factory_distinct[OF dist this] g show ?thesis by auto
      qed simp
    qed
    from enqueueDeps_foreign[OF cp seen this sub1 ord1]
    obtain q2 where q2: "enqueueDeps H ?m fs pre' [api_id H f] q1 = Inr q2" by blast
    have "enqueueDeps H ?m fs (dep_refs H f) [api_id H f] q1
        = Inl (MissingDependency [api_id H f, d])"
      unfolding refs enqueueDeps_append[of H ?m fs pre'] using q2 dref' dne nreg none by simp
    then have "enqueueDepthFirst H ?m fs f [api_id H f] q1
        = Inl (MissingDependency [api_id H f, d])" by simp
    then have "placeAll H ?m fs (before @ f # after) []
        = Inl (MissingDependency [api_id H f, d])"
      unfolding placeAll_append using q1 fnew by simp
    with e fs show ?thesis by simp
  qed
  with w show ?thesis by blast
qed

text \<open>
  The test \<open>rejects attempts to register dangling references\<close>: on the resolver
  holding a, both orders of the batch of b (depending on a) and c (depending on the
  missing identifier) fail with the chain \<open>c -> missing\<close>.
\<close>

theorem missing_dependency_rejected_witness:
  "list_all (\<lambda>ps. fst (with' test_heap (ApiResolver 1) ps (snd (with_static test_heap [0] store0)))
               = Inl (MissingDependency [''c'', ''missing'']))
     (allPermutations [10, 6]) \<and>
   length (allPermutations [10, 6 :: nat]) = 2 \<and>
   message (MissingDependency [''c'', ''missing''])
     = ''Could not resolve API dependency in chain, c -> missing''"
proof -
  let ?s = "snd (with_static test_heap [0] store0)"
  let ?r = "ApiResolver 1"
  have d: "''missing'' \<in> set (dep_ids test_heap 6)" by (simp add: test_defs)
  have nreg: "\<not> Map_has (registry_of ?s ?r) ''missing''" by (simp add: test_defs run_defs)
  have ac: "acyclic (dep_rel test_heap (set [10]))"
    by (rule acyclic_by_rank[where rank = "\<lambda>k. if k = ''a'' then 0 else 1"])
      (simp add: test_defs)
  have sat: "satisfiable test_heap (registry_of ?s ?r) [10]"
    by (simp add: satisfiable_def test_defs run_defs)
  have deps: "dep_ids test_heap 6 = [] @ ''missing'' # []" by (simp add: test_defs)
  have c: "api_id test_heap 6 = ''c''" by (simp add: test_defs)
  have "fst (with' test_heap ?r ps ?s) = Inl (MissingDependency [''c'', ''missing''])"
    if "ps \<in> set (allPermutations [10, 6])" for ps
  proof -
    from that have perm: "mset ps = mset [10, 6]" by (rule allPermutations_mset)
    then have sets: "set ps = {10, 6}" by (metis mset_eq_setD list.simps(15) empty_set)
    have f: "6 \<in> set ps" by (simp add: sets)
    have nprod: "''missing'' \<notin> api_id test_heap ` set ps" by (simp add: sets test_defs)
    have perm': "mset ps = mset (6 # [10])" using perm by (simp add: add_mset_commute)
    from perm have "mset (map (api_id test_heap) ps) = mset (map (api_id test_heap) [10, 6])"
      by simp
    moreover have "distinct (map (api_id test_heap) [10, 6])" by (simp add: test_defs)
    ultimately have dist: "distinct (map (api_id test_heap) ps)"
      by (metis mset_eq_imp_distinct_iff)
    have new: "unregistered_batch test_heap (registry_of ?s ?r) ps"
      by (simp add: unregistered_batch_def sets test_defs run_defs)
    from missing_dependency_rejected[OF f d nreg nprod]
    obtain e where w: "with' test_heap ?r ps ?s = (Inl e, copied ?s ?r)"
      and first: "\<forall>others pre post.
              mset ps = mset (6 # others) \<and> acyclic (dep_rel test_heap (set others)) \<and>
              satisfiable test_heap (registry_of ?s ?r) others \<and>
              distinct (map (api_id test_heap) ps) \<and>
              unregistered_batch test_heap (registry_of ?s ?r) ps \<and>
              dep_ids test_heap 6 = pre @ ''missing'' # post \<and>
              (\<forall>x\<in>set pre. Map_has (registry_of ?s ?r) x \<or> x \<in> api_id test_heap ` set others)
              \<longrightarrow> e = MissingDependency [api_id test_heap 6, ''missing'']"
      by blast
    from first perm' ac sat dist new deps
    have "e = MissingDependency [api_id test_heap 6, ''missing'']"
      by (metis empty_iff empty_set)
    with w c show ?thesis by simp
  qed
  then have "list_all (\<lambda>ps. fst (with' test_heap ?r ps ?s)
      = Inl (MissingDependency [''c'', ''missing''])) (allPermutations [10, 6])"
    by (simp add: list_all_iff)
  moreover have "length (allPermutations [10, 6 :: nat]) = 2"
    by (simp add: allPermutations_def)
  ultimately show ?thesis by simp
qed

text \<open>
  On the resolver holding a, the batch \<open>[apiA2, danglingC]\<close> contains the factory
  with the missing dependency, and the error is the duplicate registration of a, met
  first.
\<close>

theorem missing_dependency_rejected_counterexample:
  "''missing'' \<in> set (dep_ids test_heap 6) \<and>
   \<not> Map_has (registry_of (snd (with_static test_heap [0] store0)) (ApiResolver 1)) ''missing'' \<and>
   ''missing'' \<notin> api_id test_heap ` set [5, 6] \<and>
   fst (with' test_heap (ApiResolver 1) [5, 6] (snd (with_static test_heap [0] store0)))
     = Inl (DuplicateRegistration ''a'')"
  by (simp add: test_defs run_defs)

subsection \<open>C5: a circular dependency is rejected\<close>

text \<open>
  Claim C5 (as amended). For every batch with pairwise distinct produced identifiers
  containing two factories whose dependencies name each other's produced identifier,
  neither identifier being a key of the receiver's registry, \<open>with\<close> fails and
  commits no entry. When the batch is just these two factories and, in each, the
  dependencies enumerated before the reference to the other are registered, the error is
  CircularDependency with the cycle in path order from the first factory of the batch,
  its identifier repeated at the end; this covers both orders of the two.
\<close>

theorem circular_dependency_rejected:
  assumes fa: "fa \<in> set fs" and fb: "fb \<in> set fs"
    and ab: "api_id H fb \<in> set (dep_ids H fa)" and ba: "api_id H fa \<in> set (dep_ids H fb)"
    and na: "\<not> Map_has (registry_of s r) (api_id H fa)"
    and nb: "\<not> Map_has (registry_of s r) (api_id H fb)"
    and dist: "distinct (map (api_id H) fs)"
  shows "\<exists>e. with' H r fs s = (Inl e, copied s r) \<and>
           (\<forall>pa pa' pb pb'.
              fs = [fa, fb] \<and>
              dep_ids H fa = pa @ api_id H fb # pa' \<and> (\<forall>x\<in>set pa. Map_has (registry_of s r) x) \<and>
              dep_ids H fb = pb @ api_id H fa # pb' \<and> (\<forall>x\<in>set pb. Map_has (registry_of s r) x)
              \<longrightarrow> e = CircularDependency [api_id H fa, api_id H fb, api_id H fa])"
proof -
  let ?m = "registry_of s r"
  let ?a = "api_id H fa" and ?b = "api_id H fb"
  from ab obtain bref where bref: "bref \<in> set (dep_refs H fa)" and bid: "id' bref = ?b"
    by (auto simp: dep_ids_def)
  from ba obtain aref where aref: "aref \<in> set (dep_refs H fb)" and aid: "id' aref = ?a"
    by (auto simp: dep_ids_def)
  have findb: "find_factory H fs ?b = Some fb" by (rule find_factory_distinct[OF dist fb])
  have "isl (enqueueDepthFirst H ?m fs fa [?a] q)" for q
  proof -
    have inner: "isl (enqueueDepthFirst H ?m fs fb [?a, ?b] q')" for q'
    proof -
      have "isl (enqueueDeps H ?m fs (dep_refs H fb) [?a, ?b] q')"
        by (rule enqueueDeps_fails[OF aref]) (simp add: aid)
      then show ?thesis by (auto simp: isl_def)
    qed
    have "isl (enqueueDeps H ?m fs (dep_refs H fa) [?a] q)"
    proof (rule enqueueDeps_fails[OF bref])
      fix q' show "isl (enqueueDeps H ?m fs [bref] [?a] q')"
        using inner[of q'] by (auto simp: bid nb findb isl_def)
    qed
    then show ?thesis by (auto simp: isl_def)
  qed
  then have "isl (placeAll H ?m fs fs [])"
    by (intro placeAll_fails[OF fa]) simp
  from with'_fails[OF this] obtain e where e: "placeAll H ?m fs fs [] = Inl e"
    and w: "with' H r fs s = (Inl e, copied s r)" by blast
  have "e = CircularDependency [?a, ?b, ?a]"
    if fs: "fs = [fa, fb]"
      and da: "dep_ids H fa = pa @ ?b # pa'" and ra: "\<forall>x\<in>set pa. Map_has ?m x"
      and db: "dep_ids H fb = pb @ ?a # pb'" and rb: "\<forall>x\<in>set pb. Map_has ?m x"
    for pa pa' pb pb'
  proof -
    from dist fs have neq: "?a \<noteq> ?b" by simp
    from dep_ids_split[OF da] obtain pra bref' posta where
      refsa: "dep_refs H fa = pra @ bref' # posta" and pra: "map id' pra = pa"
      and bid': "id' bref' = ?b" by blast
    from dep_ids_split[OF db] obtain prb aref' postb where
      refsb: "dep_refs H fb = prb @ aref' # postb" and prb: "map id' prb = pb"
      and aid': "id' aref' = ?a" by blast
    from ra pra have ra': "\<forall>x\<in>set pra. Map_has ?m (id' x)" by auto
    from rb prb have rb': "\<forall>x\<in>set prb. Map_has ?m (id' x)" by auto
    have "enqueueDeps H ?m fs (dep_refs H fb) [?a, ?b] []
        = Inl (CircularDependency [?a, ?b, ?a])"
      unfolding refsb using na nb
      by (subst enqueueDeps_registered[OF rb']) (simp_all add: aid')
    then have fbres: "enqueueDepthFirst H ?m fs fb [?a, ?b] []
        = Inl (CircularDependency [?a, ?b, ?a])" by simp
    have "enqueueDeps H ?m fs (dep_refs H fa) [?a] []
        = Inl (CircularDependency [?a, ?b, ?a])"
      unfolding refsa using na
      by (subst enqueueDeps_registered[OF ra'])
        (simp_all add: bid' neq[symmetric] nb findb fbres del: enqueueDepthFirst.simps)
    then have "enqueueDepthFirst H ?m fs fa [?a] [] = Inl (CircularDependency [?a, ?b, ?a])"
      by simp
    with na have "placeAll H ?m fs [fa, fb] [] = Inl (CircularDependency [?a, ?b, ?a])"
      by (simp del: enqueueDepthFirst.simps)
    with e fs show ?thesis by simp
  qed
  with w show ?thesis by blast
qed

text \<open>
  The test \<open>rejects circular dependencies\<close>, in both orders of the two factories.
\<close>

theorem circular_dependency_rejected_witness:
  "fst (with_static test_heap [7, 8] store0) = Inl (CircularDependency [''a'', ''b'', ''a'']) \<and>
   fst (with_static test_heap [8, 7] store0) = Inl (CircularDependency [''b'', ''a'', ''b'']) \<and>
   message (CircularDependency [''a'', ''b'', ''a'']) = ''Circular API dependencies: a -> b -> a''"
proof -
  define s1 :: "jsnum store" where "s1 = snd (empty' store0)"
  let ?r = "ApiResolver 0"
  have e: "empty' (store0 :: jsnum store) = (?r, s1)"
    by (simp add: s1_def empty'_def new_Map_def store0_def)
  have reg: "registry_of s1 ?r = Map.empty"
    by (simp add: s1_def empty'_def new_Map_def store0_def registry_of_def)
  have ids: "api_id test_heap 7 = ''a''" "api_id test_heap 8 = ''b''"
    and deps: "dep_ids test_heap 7 = [] @ ''b'' # []" "dep_ids test_heap 8 = [] @ ''a'' # []"
    by (simp_all add: test_defs)
  have one: "fst (with' test_heap ?r [fa, fb] s1)
      = Inl (CircularDependency [api_id test_heap fa, api_id test_heap fb, api_id test_heap fa])"
    if "fa = 7 \<and> fb = 8 \<or> fa = 8 \<and> fb = 7" for fa fb :: nat
  proof -
    from that ids deps have
      ab: "api_id test_heap fb \<in> set (dep_ids test_heap fa)" and
      ba: "api_id test_heap fa \<in> set (dep_ids test_heap fb)" and
      da: "dep_ids test_heap fa = [] @ api_id test_heap fb # []" and
      db: "dep_ids test_heap fb = [] @ api_id test_heap fa # []" and
      dist: "distinct (map (api_id test_heap) [fa, fb])"
      by auto
    have na: "\<not> Map_has (registry_of s1 ?r) (api_id test_heap fa)"
      and nb: "\<not> Map_has (registry_of s1 ?r) (api_id test_heap fb)"
      by (simp_all add: reg Map_has_def)
    from circular_dependency_rejected[OF _ _ ab ba na nb dist]
    obtain e where w: "with' test_heap ?r [fa, fb] s1 = (Inl e, copied s1 ?r)"
      and exact: "\<forall>pa pa' pb pb'.
              [fa, fb] = [fa, fb] \<and>
              dep_ids test_heap fa = pa @ api_id test_heap fb # pa' \<and>
              (\<forall>x\<in>set pa. Map_has (registry_of s1 ?r) x) \<and>
              dep_ids test_heap fb = pb @ api_id test_heap fa # pb' \<and>
              (\<forall>x\<in>set pb. Map_has (registry_of s1 ?r) x)
              \<longrightarrow> e = CircularDependency
                    [api_id test_heap fa, api_id test_heap fb, api_id test_heap fa]"
      by auto
    from exact da db
    have "e = CircularDependency [api_id test_heap fa, api_id test_heap fb, api_id test_heap fa]"
      by (metis empty_iff empty_set)
    with w show ?thesis by simp
  qed
  from one[of 7 8] one[of 8 7] ids show ?thesis
    by (simp add: with_static_def e)
qed

text \<open>
  The two factories of this batch name each other, and the first also names a missing
  identifier before: the error is the missing dependency.
\<close>

theorem circular_dependency_rejected_counterexample:
  "api_id test_heap 8 \<in> set (dep_ids test_heap 11) \<and>
   api_id test_heap 11 \<in> set (dep_ids test_heap 8) \<and>
   fst (with_static test_heap [11, 8] store0) = Inl (MissingDependency [''a'', ''missing''])"
  by (simp add: test_defs run_defs)

subsection \<open>C6: \<open>with\<close> leaves the receiver unchanged\<close>

text \<open>
  Claim C6. For every resolver that exists in the store and every batch, after
  \<open>with\<close>, whether it succeeded or raised an error, the receiver resolves every
  reference as before; every \<open>Map\<close> that existed holds what it held (only the new
  resolver's own \<open>Map\<close> gains entries); and on failure the only new \<open>Map\<close> is
  the unchanged copy of the receiver's, so no entry of the batch is committed anywhere.
\<close>

theorem with_leaves_receiver_unchanged:
  assumes alloc: "apis r < fresh s" and w: "with' H r fs s = (res, s')"
  shows "(\<forall>x :: 't ApiRef. resolve s' r x = resolve s r x) \<and>
         (\<forall>b<fresh s. maps s' b = maps s b) \<and>
         (isl res \<longrightarrow> maps s' = (maps s)(fresh s := maps s (apis r)))"
proof -
  have frame: "maps s' b = maps s b" if "b < fresh s" for b
  proof (cases "placeAll H (maps s (apis r)) fs fs []")
    case (Inl e)
    with w that show ?thesis by (auto simp: with'_unfold copied_simps)
  next
    case (Inr q)
    with w that show ?thesis by (auto simp: with'_unfold copied_simps instantiate_frame)
  qed
  have fail: "maps s' = (maps s)(fresh s := maps s (apis r))" if "isl res"
  proof (cases "placeAll H (maps s (apis r)) fs fs []")
    case (Inl e)
    with w have "s' = copied s r" by (simp add: with'_unfold)
    then show ?thesis by (simp add: copied_def new_Map_def)
  next
    case (Inr q)
    with w that show ?thesis by (auto simp: with'_unfold)
  qed
  from frame[OF alloc] have "resolve s' r x = resolve s r x" for x :: "'t ApiRef"
    by (simp add: resolve_def)
  with frame fail show ?thesis by blast
qed

text \<open>
  On the resolver holding a: the batch \<open>[apiB]\<close> succeeds and the batch
  \<open>[danglingB, danglingC]\<close> fails; either way the receiver resolves a and b as before.
\<close>

theorem with_leaves_receiver_unchanged_witness:
  "resolve (snd (with' test_heap (ApiResolver 1) [1] (snd (with_static test_heap [0] store0))))
     (ApiResolver 1) (ref ''a'') = Val (Num 1) \<and>
   resolve (snd (with' test_heap (ApiResolver 1) [1] (snd (with_static test_heap [0] store0))))
     (ApiResolver 1) (ref ''b'') = Undefined \<and>
   resolve (snd (with' test_heap (ApiResolver 1) [1] (snd (with_static test_heap [0] store0))))
     (ApiResolver 2) (ref ''b'') = Val (Num 2) \<and>
   resolve (snd (with' test_heap (ApiResolver 1) [10, 6] (snd (with_static test_heap [0] store0))))
     (ApiResolver 1) (ref ''a'') = Val (Num 1)"
proof -
  let ?s = "snd (with_static test_heap [0] store0)"
  let ?r = "ApiResolver 1"
  have alloc: "apis ?r < fresh ?s"
    by (simp add: test_defs run_defs)
  have a: "resolve ?s ?r (ref ''a'') = Val (Num 1)"
    and b: "resolve ?s ?r (ref ''b'') = Undefined"
    by (simp_all add: test_defs run_defs)
  have new: "resolve (snd (with' test_heap ?r [1] ?s)) (ApiResolver 2) (ref ''b'') = Val (Num 2)"
    by (simp add: test_defs run_defs)
  from with_leaves_receiver_unchanged[where ?'t = unit, OF alloc, of test_heap "[1]"
      "fst (with' test_heap ?r [1] ?s)" "snd (with' test_heap ?r [1] ?s)"]
  have ok: "\<forall>x::AnyApiRef. resolve (snd (with' test_heap ?r [1] ?s)) ?r x = resolve ?s ?r x"
    by simp
  from with_leaves_receiver_unchanged[where ?'t = unit, OF alloc, of test_heap "[10, 6]"
      "fst (with' test_heap ?r [10, 6] ?s)" "snd (with' test_heap ?r [10, 6] ?s)"]
  have failed: "\<forall>x::AnyApiRef. resolve (snd (with' test_heap ?r [10, 6] ?s)) ?r x = resolve ?s ?r x"
    by simp
  from ok failed a b new show ?thesis by simp
qed

subsection \<open>C7: a successful \<open>with\<close> extends the registry\<close>

text \<open>
  Claim C7 (as amended). \<open>with\<close> either fails or succeeds; when it succeeds the
  new registry extends the receiver's (every key of the receiver keeps its value), its
  keys are the receiver's together with the identifiers the batch produces, none of
  which was a key of the receiver, and when the batch is not empty it is strictly
  larger, with strictly more entries.
\<close>

theorem with_grows_registry:
  assumes w: "with' H r fs s = (Inr r', s')"
  shows "registry_of s r \<subseteq>\<^sub>m registry_of s' r' \<and>
         dom (registry_of s' r') = dom (registry_of s r) \<union> api_id H ` set fs \<and>
         api_id H ` set fs \<inter> dom (registry_of s r) = {} \<and>
         (fs \<noteq> [] \<longrightarrow> dom (registry_of s r) \<subset> dom (registry_of s' r')) \<and>
         (fs \<noteq> [] \<and> finite (dom (registry_of s r)) \<longrightarrow>
            card (dom (registry_of s r)) < card (dom (registry_of s' r')))"
proof -
  let ?m = "maps s (apis r)"
  from w obtain q where q: "placeAll H ?m fs fs [] = Inr q"
    and r': "r' = ApiResolver (fresh s)" and s': "s' = instantiate H (fresh s) q (copied s r)"
    by (auto simp: with'_unfold split: sum.splits)
  from placeAll_batch[OF q] have qs: "set q = set fs"
    and new: "\<forall>f\<in>set fs. \<not> Map_has ?m (api_id H f)" by auto
  let ?m' = "maps s' (fresh s)"
  have disj: "api_id H ` set fs \<inter> dom ?m = {}"
    using new by (auto simp: Map_has_def)
  have dom': "dom ?m' = dom ?m \<union> api_id H ` set fs"
    by (simp add: s' instantiate_dom copied_simps qs)
  have le: "?m \<subseteq>\<^sub>m ?m'"
    unfolding map_le_def
  proof
    fix k assume k: "k \<in> dom ?m"
    with disj have "k \<notin> api_id H ` set q" by (auto simp: qs)
    then show "?m k = ?m' k" by (simp add: s' instantiate_keep copied_simps)
  qed
  have strict: "dom ?m \<subset> dom ?m'" if "fs \<noteq> []"
  proof -
    from that obtain f where "f \<in> set fs" by (cases fs) auto
    with disj have "api_id H f \<in> dom ?m' - dom ?m" by (auto simp: dom')
    with dom' show ?thesis by auto
  qed
  have "card (dom ?m) < card (dom ?m')" if "fs \<noteq> []" "finite (dom ?m)"
    using strict[OF that(1)] that(2) by (intro psubset_card_mono) (simp_all add: dom')
  with le dom' disj strict show ?thesis by (simp add: registry_of_def r')
qed

text \<open>
  The batch \<open>[apiB]\<close> on the resolver holding a: the new registry has the keys a and
  b, and a keeps its value.
\<close>

theorem with_grows_registry_witness:
  "dom (registry_of (snd (with' test_heap (ApiResolver 1) [1] (snd (with_static test_heap [0] store0))))
      (ApiResolver 2)) = {''a'', ''b''} \<and>
   registry_of (snd (with' test_heap (ApiResolver 1) [1] (snd (with_static test_heap [0] store0))))
      (ApiResolver 2) ''a'' = Some (Val (Num 1))"
proof -
  let ?s = "snd (with_static test_heap [0] store0)"
  let ?w = "with' test_heap (ApiResolver 1) [1] ?s"
  have w: "?w = (Inr (ApiResolver 2), snd ?w)"
    by (simp add: test_defs run_defs)
  have d: "dom (registry_of ?s (ApiResolver 1)) = {''a''}"
    and a: "registry_of ?s (ApiResolver 1) ''a'' = Some (Val (Num 1))"
    by (simp_all add: test_defs run_defs)
  from with_grows_registry[OF w] d
  have "dom (registry_of (snd ?w) (ApiResolver 2)) = {''a'', ''b''}"
    and "registry_of ?s (ApiResolver 1) \<subseteq>\<^sub>m registry_of (snd ?w) (ApiResolver 2)"
    by (auto simp: test_defs)
  with a d show ?thesis by (auto simp: map_le_def)
qed

text \<open>
  The empty batch succeeds, and the new registry is the receiver's: not a larger one.
\<close>

theorem with_grows_registry_counterexample:
  "fst (with' test_heap (ApiResolver 1) [] (snd (with_static test_heap [0] store0)))
     = Inr (ApiResolver 2) \<and>
   registry_of (snd (with' test_heap (ApiResolver 1) [] (snd (with_static test_heap [0] store0))))
     (ApiResolver 2)
     = registry_of (snd (with_static test_heap [0] store0)) (ApiResolver 1)"
  by (simp add: test_defs run_defs)

subsection \<open>C8: growing a resolver step by step\<close>

text \<open>
  Claim C8. For every pair of factories a and b where a depends only on the identifier
  b produces and every dependency of b is registered in the receiver,
  \<open>with([b]).with([a])\<close> and \<open>with([a, b])\<close> fail together or succeed together, and
  when they succeed the two resolvers resolve every reference (so each produced one) to
  the same value.
\<close>

theorem incremental_equals_batch:
  assumes only: "set (dep_ids H a) = {api_id H b}"
    and reg: "\<forall>d\<in>set (dep_ids H b). Map_has (registry_of s r) d"
  shows "isl (fst (incremental H r a b s)) = isl (fst (with' H r [a, b] s)) \<and>
         (\<forall>r2 s2 r' s'. incremental H r a b s = (Inr r2, s2) \<and> with' H r [a, b] s = (Inr r', s')
            \<longrightarrow> (\<forall>x :: 't ApiRef. resolve s2 r2 x = resolve s' r' x))"
proof -
  let ?m = "registry_of s r"
  let ?a = "api_id H a" and ?b = "api_id H b"
  have refs: "\<forall>x\<in>set (dep_refs H a). id' x = ?b" and ne: "dep_refs H a \<noteq> []"
    using only by (auto simp: dep_ids_def)
  from ne obtain x0 rest where cons: "dep_refs H a = x0 # rest" by (cases "dep_refs H a") auto
  with refs have x0: "id' x0 = ?b" by simp
  consider (regb) "Map_has ?m ?b" | (rega) "\<not> Map_has ?m ?b" "Map_has ?m ?a"
    | (same) "\<not> Map_has ?m ?b" "\<not> Map_has ?m ?a" "?a = ?b"
    | (new) "\<not> Map_has ?m ?b" "\<not> Map_has ?m ?a" "?a \<noteq> ?b"
    by blast
  then show ?thesis
  proof cases
    case regb
    have "isl (placeAll H ?m [b] [b] [])" using regb by simp
    from with'_fails[OF this] have 1: "isl (fst (incremental H r a b s))"
      by (auto simp: incremental_def)
    have "isl (placeAll H ?m [a, b] [a, b] [])"
      by (rule placeAll_fails[of b]) (simp_all add: regb)
    from with'_fails[OF this] have 2: "isl (fst (with' H r [a, b] s))" by auto
    from 1 2 show ?thesis by auto
  next
    case rega
    from with'_single[OF reg rega(1)] obtain s1 where
      w1: "with' H r [b] s = (Inr (ApiResolver (fresh s)), s1)"
      and m1: "registry_of s1 (ApiResolver (fresh s)) =
        ?m(?b \<mapsto> factory (H b) (mapValues (\<lambda>ref. Map_get ?m (id' ref)) (deps (H b))))"
      by blast
    have "Map_has (registry_of s1 (ApiResolver (fresh s))) ?a"
      using rega(2) by (simp add: m1 Map_has_def)
    then have "isl (placeAll H (registry_of s1 (ApiResolver (fresh s))) [a] [a] [])" by simp
    from with'_fails[OF this] w1 have 1: "isl (fst (incremental H r a b s))"
      by (auto simp: incremental_def)
    have "isl (placeAll H ?m [a, b] [a, b] [])" using rega(2) by simp
    from with'_fails[OF this] have 2: "isl (fst (with' H r [a, b] s))" by auto
    from 1 2 show ?thesis by auto
  next
    case same
    from with'_single[OF reg same(1)] obtain s1 where
      w1: "with' H r [b] s = (Inr (ApiResolver (fresh s)), s1)"
      and m1: "registry_of s1 (ApiResolver (fresh s)) =
        ?m(?b \<mapsto> factory (H b) (mapValues (\<lambda>ref. Map_get ?m (id' ref)) (deps (H b))))"
      by blast
    have "Map_has (registry_of s1 (ApiResolver (fresh s))) ?a"
      using same(3) by (simp add: m1 Map_has_def)
    then have "isl (placeAll H (registry_of s1 (ApiResolver (fresh s))) [a] [a] [])" by simp
    from with'_fails[OF this] w1 have 1: "isl (fst (incremental H r a b s))"
      by (auto simp: incremental_def)
    have "isl (placeAll H ?m [a, b] [a, b] [])"
      using same by (simp add: cons x0)
    from with'_fails[OF this] have 2: "isl (fst (with' H r [a, b] s))" by auto
    from 1 2 show ?thesis by auto
  next
    case new
    let ?vb = "factory (H b) (mapValues (\<lambda>ref. Map_get ?m (id' ref)) (deps (H b)))"
    let ?m1 = "?m(?b \<mapsto> ?vb)"
    let ?va = "factory (H a) (mapValues (\<lambda>ref. Map_get ?m1 (id' ref)) (deps (H a)))"
    let ?r1 = "ApiResolver (fresh s)"
    from with'_single[OF reg new(1)] obtain s1 where
      w1: "with' H r [b] s = (Inr ?r1, s1)" and f1: "fresh s1 = Suc (fresh s)"
      and m1: "registry_of s1 ?r1 = ?m1"
      by blast
    have rega1: "\<forall>d\<in>set (dep_ids H a). Map_has (registry_of s1 ?r1) d"
      using only by (simp add: m1 Map_has_def)
    have newa1: "\<not> Map_has (registry_of s1 ?r1) ?a"
      using new by (simp add: m1 Map_has_def)
    from with'_single[OF rega1 newa1] obtain s2 where
      w2: "with' H ?r1 [a] s1 = (Inr (ApiResolver (fresh s1)), s2)"
      and m2: "registry_of s2 (ApiResolver (fresh s1)) = ?m1(?a \<mapsto> ?va)"
      by (auto simp: m1)
    from w1 w2 have inc: "incremental H r a b s = (Inr (ApiResolver (fresh s1)), s2)"
      by (simp add: incremental_def)
    have q: "placeAll H ?m [a, b] [a, b] [] = Inr [b, a]"
      by (rule with'_pair[OF only reg new(2) new(1) new(3)])
    let ?s' = "instantiate H (fresh s) [b, a] (copied s r)"
    from q have w: "with' H r [a, b] s = (Inr ?r1, ?s')"
      by (simp add: with'_unfold registry_of_def)
    have m': "registry_of ?s' ?r1 = ?m1(?a \<mapsto> ?va)"
      by (simp add: registry_of_def copied_simps Map_set_def Let_def)
    have "resolve s2 (ApiResolver (fresh s1)) x = resolve ?s' ?r1 x" for x :: "'t ApiRef"
      using m2 m' by (simp add: resolve_def registry_of_def)
    with inc w show ?thesis by simp
  qed
qed

text \<open>
  The test \<open>can register entries that have dependencies on already registered
  things\<close>, beside the single batch: a resolves to 2 and b to 1 either way.
\<close>

theorem incremental_equals_batch_witness:
  "outcome (incremental test_heap (ApiResolver 0) 12 9 (snd (empty' store0))) ''a''
     = Inr (Val (Num 2)) \<and>
   outcome (incremental test_heap (ApiResolver 0) 12 9 (snd (empty' store0))) ''b''
     = Inr (Val (Num 1)) \<and>
   outcome (with' test_heap (ApiResolver 0) [12, 9] (snd (empty' store0))) ''a''
     = Inr (Val (Num 2)) \<and>
   outcome (with' test_heap (ApiResolver 0) [12, 9] (snd (empty' store0))) ''b''
     = Inr (Val (Num 1))"
proof -
  define s1 :: "jsnum store" where "s1 = snd (empty' store0)"
  let ?r = "ApiResolver 0"
  let ?i = "incremental test_heap ?r 12 9 s1"
  let ?w = "with' test_heap ?r [12, 9] s1"
  have reg: "registry_of s1 ?r = Map.empty"
    by (simp add: s1_def empty'_def new_Map_def store0_def registry_of_def)
  have only: "set (dep_ids test_heap 12) = {api_id test_heap 9}"
    by (simp add: test_defs)
  have sat: "\<forall>d\<in>set (dep_ids test_heap 9). Map_has (registry_of s1 ?r) d"
    by (simp add: test_defs)
  have i: "?i = (Inr (ApiResolver 2), snd ?i)"
    by (simp add: s1_def incremental_def test_defs run_defs)
  have w: "?w = (Inr (ApiResolver 1), snd ?w)"
    by (simp add: s1_def test_defs run_defs)
  have a: "resolve (snd ?w) (ApiResolver 1) (ref ''a'') = Val (Num 2)"
    and b: "resolve (snd ?w) (ApiResolver 1) (ref ''b'') = Val (Num 1)"
    by (simp_all add: s1_def test_defs run_defs)
  from incremental_equals_batch[where ?'t = unit, OF only sat] i w
  have "\<forall>x :: AnyApiRef. resolve (snd ?i) (ApiResolver 2) x = resolve (snd ?w) (ApiResolver 1) x"
    by blast
  with a b have "resolve (snd ?i) (ApiResolver 2) (ref ''a'') = Val (Num 2)"
    and "resolve (snd ?i) (ApiResolver 2) (ref ''b'') = Val (Num 1)"
    by simp_all
  with a b i w show ?thesis
    unfolding s1_def[symmetric] outcome_def by (metis fst_conv snd_conv sum.simps(6))
qed

subsection \<open>C9: the placement terminates\<close>

text \<open>
  Claim C9. The depth-first placement terminates: \<open>enqueueDepthFirst\<close> is a total
  function (its termination proof is the measure of the claim: each recursive call
  extends \<open>seen\<close> by a batch identifier that was not on it), returning one of the
  three errors or the queue; and the depth of its recursion is bounded by the number of
  distinct identifiers of the batch: run from a factory of the batch with that budget (or
  more), the traversal never exceeds it and returns what the unbounded one returns. The
  two loops of \<open>with\<close> around it run once over the batch and once over the queue.
\<close>

theorem placement_terminates:
  assumes "f \<in> set factories" and "card (api_id H ` set factories) \<le> n"
  shows "enqueueDepthFirst_depth n H m factories f [api_id H f] queue
           = Some (enqueueDepthFirst H m factories f [api_id H f] queue)"
proof -
  from assms(1) have "api_id H ` set factories - set [api_id H f] \<subset> api_id H ` set factories"
    by auto
  then have "card (api_id H ` set factories - set [api_id H f]) < card (api_id H ` set factories)"
    by (intro psubset_card_mono) auto
  with assms(2) have "card (api_id H ` set factories - set [api_id H f]) < n" by simp
  then show ?thesis by (rule depth_enough(1))
qed

text \<open>
  Placing e in the batch a, b, c, d, e nests four calls: the budget 5, the number of
  identifiers, is enough, and so is 4, while 3 is not.
\<close>

theorem placement_terminates_witness:
  "enqueueDepthFirst_depth 5 test_heap Map.empty [0, 1, 2, 3, 4] 4 [''e''] []
     = Some (Inr [0, 1, 2, 3, 4]) \<and>
   enqueueDepthFirst_depth 3 test_heap Map.empty [0, 1, 2, 3, 4] 4 [''e''] [] = None"
proof -
  have mem: "(4::nat) \<in> set [0, 1, 2, 3, 4]" by simp
  have card: "card (api_id test_heap ` set [0, 1, 2, 3, 4]) \<le> 5"
    by (simp add: test_defs)
  have e: "api_id test_heap 4 = ''e''" by (simp add: test_defs)
  have "enqueueDepthFirst test_heap Map.empty [0, 1, 2, 3, 4] 4 [''e''] [] = Inr [0, 1, 2, 3, 4]"
    by (simp add: test_defs run_defs)
  with placement_terminates[OF mem card, of Map.empty "[]"] e
  have "enqueueDepthFirst_depth 5 test_heap Map.empty [0, 1, 2, 3, 4] 4 [''e''] []
     = Some (Inr [0, 1, 2, 3, 4])" by simp
  moreover have
    "enqueueDepthFirst_depth 3 test_heap Map.empty [0, 1, 2, 3, 4] 4 [''e''] [] = None"
    by (simp add: test_defs run_defs eval_nat_numeral)
  ultimately show ?thesis by simp
qed

subsection \<open>C10: \<open>resolve\<close> is keyed by the identifier alone\<close>

text \<open>
  Claim C10. \<open>resolve\<close> returns a value for every reference (it has no error
  result); two references with the same identifier resolve to the same value, whatever
  their marker fields \<open>T\<close> and the types of these; a reference whose identifier is
  not a key of the registry resolves to \<open>undefined\<close>, and so does every reference in
  the resolver that \<open>empty()\<close> returns.
\<close>

theorem resolve_by_id:
  fixes r1 :: "'t1 ApiRef" and r2 :: "'t2 ApiRef" and r3 :: "'t3 ApiRef"
  shows "(id' r1 = id' r2 \<longrightarrow> resolve s this r1 = resolve s this r2) \<and>
         (\<not> Map_has (registry_of s this) (id' r1) \<longrightarrow> resolve s this r1 = Undefined) \<and>
         resolve (snd (empty' s)) (fst (empty' s)) r3 = Undefined"
  by (simp add: resolve_def registry_of_def Map_has_def Map_get_def empty'_def new_Map_def)

text \<open>
  Two references to a with marker fields of different types, an absent b, and the empty
  resolver.
\<close>

theorem resolve_by_id_witness:
  "resolve (snd (with_static test_heap [0] store0)) (ApiResolver 1) \<lparr>id' = ''a'', T = ()\<rparr>
     = Val (Num 1) \<and>
   resolve (snd (with_static test_heap [0] store0)) (ApiResolver 1) \<lparr>id' = ''a'', T = True\<rparr>
     = Val (Num 1) \<and>
   resolve (snd (with_static test_heap [0] store0)) (ApiResolver 1) \<lparr>id' = ''b'', T = ()\<rparr>
     = Undefined \<and>
   resolve (snd (empty' (store0 :: jsnum store))) (fst (empty' (store0 :: jsnum store)))
     \<lparr>id' = ''a'', T = ()\<rparr> = (Undefined :: jsnum jsval)"
proof -
  let ?s = "snd (with_static test_heap [0] store0)"
  have a: "resolve ?s (ApiResolver 1) \<lparr>id' = ''a'', T = ()\<rparr> = Val (Num 1)"
    by (simp add: test_defs run_defs)
  have nb: "\<not> Map_has (registry_of ?s (ApiResolver 1)) (id' \<lparr>id' = ''b'', T = ()\<rparr>)"
    by (simp add: test_defs run_defs)
  from resolve_by_id[of "\<lparr>id' = ''a'', T = ()\<rparr>" "\<lparr>id' = ''a'', T = True\<rparr>" ?s "ApiResolver 1" "ref ''a''"]
  have "resolve ?s (ApiResolver 1) \<lparr>id' = ''a'', T = ()\<rparr>
      = resolve ?s (ApiResolver 1) \<lparr>id' = ''a'', T = True\<rparr>"
    by simp
  moreover from resolve_by_id[of "\<lparr>id' = ''b'', T = ()\<rparr>" "\<lparr>id' = ''b'', T = ()\<rparr>" ?s "ApiResolver 1" "ref ''a''"] nb
  have "resolve ?s (ApiResolver 1) \<lparr>id' = ''b'', T = ()\<rparr> = Undefined"
    by blast
  moreover from resolve_by_id[of "\<lparr>id' = ''a'', T = ()\<rparr>" "\<lparr>id' = ''a'', T = ()\<rparr>"
      "store0 :: jsnum store" "ApiResolver 0" "\<lparr>id' = ''a'', T = ()\<rparr>"]
  have "resolve (snd (empty' (store0 :: jsnum store))) (fst (empty' (store0 :: jsnum store)))
     \<lparr>id' = ''a'', T = ()\<rparr> = (Undefined :: jsnum jsval)"
    by blast
  ultimately show ?thesis using a by simp
qed

end
